theory Spec2Isabelle
  imports Main "HOL-Library.Sublist"
begin

section \<open>The package \<open>system\<close>: a dependency graph and its initialisation order\<close>

text \<open>
  The source file \<^verbatim>\<open>system.go\<close> holds two revisions of the package, one after the other:
  the first in lines 1-176, the second in lines 178-365. They share the type \<open>System\<close>
  and the function \<open>New\<close>. The second revision adds the validation of identifiers to
  \<open>AddElement\<close> and moves the emptiness test of \<open>InitOrder\<close> to the head of its loop; its
  \<open>addToInitOrder\<close> differs from the first one only in the full stop that ends the
  description of a circle. The plain names below are the second revision; the functions
  of the first revision carry the suffix \<open>_rev1\<close>.
\<close>

subsection \<open>Go values: errors, slices and the arrays behind them\<close>

text \<open>
  The three error variables of lines 361-365, and the values made by \<open>errors.New\<close> inside
  \<open>AddElement\<close> (lines 217 and 221), which carry their message.
\<close>

datatype error = ErrAlreadyAdded | ErrCircleDetected | ErrElementMissing | ErrorsNew string

text \<open>
  A Go slice is a window on an array: the array, the index of the first element and the
  number of elements. Assigning a slice, or passing it to a function, copies the window
  and shares the array. The heap maps an array's address to its contents.
\<close>

type_synonym addr = nat

datatype slice = Slice (array: addr) (low: nat) (len: nat)

type_synonym heap = "addr \<rightharpoonup> string list"

definition elems :: "heap \<Rightarrow> slice \<Rightarrow> string list" where
  "elems h s = (case h (array s) of None \<Rightarrow> [] | Some a \<Rightarrow> take (len s) (drop (low s) a))"

text \<open>The statement \<^verbatim>\<open>s[i] = v\<close> of a Go program; out of range it panics (\<open>None\<close>).\<close>

definition store :: "slice \<Rightarrow> nat \<Rightarrow> string \<Rightarrow> heap \<Rightarrow> heap option" where
  "store s i v h =
     (case h (array s) of
        None \<Rightarrow> None
      | Some a \<Rightarrow>
          if i < len s \<and> low s + i < length a
          then Some (h(array s \<mapsto> a[low s + i := v]))
          else None)"

subsection \<open>The type \<open>System\<close> and \<open>New\<close> (lines 187-200)\<close>

text \<open>
  \<open>systemElements\<close> is only reached through the package, so it is kept as the list of
  its elements. \<open>dependencies\<close> maps an identifier to the slice that \<open>AddElement\<close> was
  given. \<open>addedElements\<close> is the string of all identifiers, each followed by a slash.
\<close>

record System =
  systemElements :: "string list"
  dependencies :: "string \<rightharpoonup> slice"
  addedElements :: string

definition New :: System where
  "New = \<lparr>systemElements = [], dependencies = Map.empty, addedElements = ''''\<rparr>"

text \<open>
  The expression \<^verbatim>\<open>someSystem.dependencies [element]\<close>: the elements of the stored
  slice, and the nil slice (no elements) for a key that the map does not hold.
\<close>

definition dependenciesOf :: "heap \<Rightarrow> System \<Rightarrow> string \<Rightarrow> string list" where
  "dependenciesOf h someSystem element =
     (case dependencies someSystem element of None \<Rightarrow> [] | Some s \<Rightarrow> elems h s)"

subsection \<open>Library functions that the package calls\<close>

text \<open>\<open>strings.Contains\<close> of the Go standard library: \<open>substr\<close> occurs within \<open>s\<close>.\<close>

fun Contains :: "string \<Rightarrow> string \<Rightarrow> bool" where
  "Contains [] substr = (substr = [])"
| "Contains (c # s) substr = (prefix substr (c # s) \<or> Contains s substr)"

text \<open>
  The package \<^verbatim>\<open>qamarian-etc/slices\<close>, imported in lines 9 and 183, is not among the
  sources. Its three functions are modelled after their names and their use in
  \<open>addToInitOrder\<close>, which the specification describes as linear scans of, and removals
  from, a working list that is local to the call.
\<close>

text \<open>
  Modelled from the spec: \<open>slices.IsElementInStringSlice\<close>, which is not among the
  sources, tells whether the element occurs in the slice.
\<close>

definition IsElementInStringSlice :: "string list \<Rightarrow> string \<Rightarrow> bool" where
  "IsElementInStringSlice slice element = (element \<in> set slice)"

text \<open>
  Modelled from the spec: \<open>slices.IndexInStringSlice\<close>, which is not among the sources,
  returns the index of the first occurrence of the element in the slice, and \<open>-1\<close> when
  the element does not occur (the value that line 333 compares with).
\<close>

fun IndexInStringSlice :: "string list \<Rightarrow> string \<Rightarrow> int" where
  "IndexInStringSlice [] element = - 1"
| "IndexInStringSlice (x # xs) element =
     (if x = element then 0
      else if IndexInStringSlice xs element = - 1 then - 1
      else IndexInStringSlice xs element + 1)"

text \<open>
  Modelled from the spec: \<open>slices.RemoveFromStringSlice\<close>, which is not among the sources,
  returns a new slice that holds, in their order, the elements of the slice that differ
  from the element, and leaves the array of its argument as it is.
\<close>

definition RemoveFromStringSlice :: "string list \<Rightarrow> string \<Rightarrow> string list" where
  "RemoveFromStringSlice slice element = removeAll element slice"

subsection \<open>\<open>AddElement\<close>\<close>

text \<open>
  Lines 214-231. The result is the returned error (\<open>None\<close> for nil) and the system after
  the call. The slice \<open>deps\<close> is the parameter \<^verbatim>\<open>dependencies\<close>; the loop of lines
  219-223 reads its elements, and line 228 stores the slice itself.
\<close>

definition AddElement :: "string \<Rightarrow> slice \<Rightarrow> heap \<Rightarrow> System \<Rightarrow> error option \<times> System" where
  "AddElement newElement deps h someSystem =
     (if newElement = ''''
      then (Some (ErrorsNew ''Empty string can not be used as ID of an element.''), someSystem)
      else if list_ex (\<lambda>dep. dep = '''') (elems h deps)
      then (Some (ErrorsNew ''The ID of a dependency is an empty string.''), someSystem)
      else if Contains (addedElements someSystem) (newElement @ ''/'')
      then (Some ErrAlreadyAdded, someSystem)
      else (None, someSystem
              \<lparr>systemElements := systemElements someSystem @ [newElement],
               dependencies := (dependencies someSystem)(newElement \<mapsto> deps),
               addedElements := addedElements someSystem @ newElement @ ''/''\<rparr>))"

text \<open>Lines 29-48, the first revision: no test of the identifiers for emptiness.\<close>

definition AddElement_rev1 :: "string \<Rightarrow> slice \<Rightarrow> System \<Rightarrow> error option \<times> System" where
  "AddElement_rev1 newElement deps someSystem =
     (if Contains (addedElements someSystem) (newElement @ ''/'')
      then (Some ErrAlreadyAdded, someSystem)
      else (None, someSystem
              \<lparr>systemElements := systemElements someSystem @ [newElement],
               dependencies := (dependencies someSystem)(newElement \<mapsto> deps),
               addedElements := addedElements someSystem @ newElement @ ''/''\<rparr>))"

subsection \<open>\<open>addToInitOrder\<close>\<close>

text \<open>
  A failure is the returned error with its description. The two descriptions are built
  in lines 308-309 (122 in the first revision, without the full stop, which is the
  parameter \<open>stop\<close>) and 334-335.
\<close>

type_synonym failure = "error \<times> string"

definition circleDescp :: "string \<Rightarrow> string \<Rightarrow> string" where
  "circleDescp stop element =
     ''Element '' @ [CHR 0x27] @ element @ [CHR 0x27] @ '' is part of the circle'' @ stop"

definition missingDescp :: "string \<Rightarrow> string" where
  "missingDescp dependency =
     ''Dependency '' @ [CHR 0x27] @ dependency @ [CHR 0x27] @ '' is missing''"

text \<open>
  Lines 280-359 (96-170 in the first revision). The function returns either a failure
  (\<open>Inl\<close>: nil, nil, the error and its description) or the new init order and the
  remaining elements (\<open>Inr\<close>: with a nil error and an empty description).
  \<open>addDependencies\<close> is the \<^verbatim>\<open>for ... range\<close> loop of lines 325-348 over the
  dependencies that are still to be looked at; it carries the two variables that the
  loop assigns, \<open>initOrder\<close> and \<open>elements\<close>. Line 353 assigns to the function's own
  \<open>waitingList\<close>, which is neither read nor returned afterwards, so it has no
  counterpart here.
\<close>

function addToInitOrder ::
    "string \<Rightarrow> string list \<Rightarrow> string \<Rightarrow> string list \<Rightarrow> string list \<Rightarrow> heap \<Rightarrow> System
      \<Rightarrow> failure + (string list \<times> string list)"
  and addDependencies ::
    "string \<Rightarrow> string list \<Rightarrow> string list \<Rightarrow> string list \<Rightarrow> string list \<Rightarrow> heap \<Rightarrow> System
      \<Rightarrow> failure + (string list \<times> string list)"
where
  "addToInitOrder stop initOrder element waitingList elements h someSystem =
     (if IsElementInStringSlice waitingList element
      then Inl (ErrCircleDetected, circleDescp stop element)
      else if length (dependenciesOf h someSystem element) = 0
      then Inr (initOrder @ [element], RemoveFromStringSlice elements element)
      else (case addDependencies stop (dependenciesOf h someSystem element) initOrder
                   (waitingList @ [element]) elements h someSystem of
              Inl err \<Rightarrow> Inl err
            | Inr (initOrder', elements') \<Rightarrow>
                Inr (initOrder' @ [element], RemoveFromStringSlice elements' element)))"
| "addDependencies stop [] initOrder waitingList elements h someSystem =
     Inr (initOrder, elements)"
| "addDependencies stop (dependency # rest) initOrder waitingList elements h someSystem =
     (if IsElementInStringSlice initOrder dependency
      then addDependencies stop rest initOrder waitingList elements h someSystem
      else if IndexInStringSlice elements dependency = - 1
      then Inl (ErrElementMissing, missingDescp dependency)
      else (case addToInitOrder stop initOrder dependency waitingList elements h someSystem of
              Inl err \<Rightarrow> Inl err
            | Inr (initOrder', elements') \<Rightarrow>
                addDependencies stop rest initOrder' waitingList elements' h someSystem))"
  by pat_completeness auto

text \<open>
  On a slice without duplicates, to remove every occurrence is to remove the first one;
  the slices of identifiers that \<open>InitOrder\<close> works on have no duplicates
  (\<open>reaches_invariant\<close> below).
\<close>

lemma RemoveFromStringSlice_distinct:
  "distinct xs \<Longrightarrow> RemoveFromStringSlice xs x = remove1 x xs"
  by (simp add: RemoveFromStringSlice_def distinct_remove1_removeAll)

text \<open>
  Termination. A nested call works on the elements that the call before it has left, so
  the first step shows, for the arguments on which the function is defined, that a call
  never adds to the remaining elements.
\<close>

lemma set_RemoveFromStringSlice_subset: "set (RemoveFromStringSlice xs x) \<subseteq> set xs"
  by (auto simp: RemoveFromStringSlice_def)

lemma elements_shrink_dom:
  "addToInitOrder_addDependencies_dom (Inl (stop, io, e, wl, els, h, s)) \<Longrightarrow>
     addToInitOrder stop io e wl els h s = Inr (io', els') \<Longrightarrow> set els' \<subseteq> set els"
  "addToInitOrder_addDependencies_dom (Inr (stop, ds, io, wl, els, h, s)) \<Longrightarrow>
     addDependencies stop ds io wl els h s = Inr (io', els') \<Longrightarrow> set els' \<subseteq> set els"
proof (induction stop io e wl els h s and stop ds io wl els h s arbitrary: io' els' and io' els'
    rule: addToInitOrder_addDependencies.pinduct)
  case (1 stop initOrder element waitingList elements h someSystem)
  show ?case
  proof (cases "length (dependenciesOf h someSystem element) = 0")
    case True
    with 1(1,3) have "els' = RemoveFromStringSlice elements element"
      by (auto simp: addToInitOrder.psimps split: if_splits)
    then show ?thesis
      using set_RemoveFromStringSlice_subset by simp
  next
    case False
    with 1(1,3) obtain io2 els2 where
      nw: "\<not> IsElementInStringSlice waitingList element" and
      d: "addDependencies stop (dependenciesOf h someSystem element) initOrder
            (waitingList @ [element]) elements h someSystem = Inr (io2, els2)" and
      r: "els' = RemoveFromStringSlice els2 element"
      by (auto simp: addToInitOrder.psimps split: if_splits sum.splits)
    from 1(2)[OF nw False d] have "set els2 \<subseteq> set elements" .
    with r show ?thesis
      using set_RemoveFromStringSlice_subset[of els2 element] by blast
  qed
next
  case (2 stop initOrder waitingList elements h someSystem)
  then show ?case by (simp add: addDependencies.psimps)
next
  case (3 stop dependency rest initOrder waitingList elements h someSystem)
  show ?case
  proof (cases "IsElementInStringSlice initOrder dependency")
    case True
    with 3(1,5) have "addDependencies stop rest initOrder waitingList elements h someSystem
        = Inr (io', els')"
      by (simp add: addDependencies.psimps)
    from 3(2)[OF True this] show ?thesis .
  next
    case False
    with 3(1,5) obtain io2 els2 where
      ix: "IndexInStringSlice elements dependency \<noteq> - 1" and
      a: "addToInitOrder stop initOrder dependency waitingList elements h someSystem
            = Inr (io2, els2)" and
      d: "addDependencies stop rest io2 waitingList els2 h someSystem = Inr (io', els')"
      by (auto simp: addDependencies.psimps split: if_splits sum.splits)
    from 3(3)[OF False ix a] have "set els2 \<subseteq> set elements" .
    moreover from 3(4)[OF False ix a refl d] have "set els' \<subseteq> set els2" .
    ultimately show ?thesis by blast
  qed
qed

lemma IndexInStringSlice_range:
  "0 \<le> IndexInStringSlice xs x \<or> IndexInStringSlice xs x = - 1"
  by (induction xs) auto

lemma IndexInStringSlice_minus1: "IndexInStringSlice xs x = - 1 \<longleftrightarrow> x \<notin> set xs"
proof (induction xs)
  case Nil
  show ?case by simp
next
  case (Cons a xs)
  have "IndexInStringSlice xs x + 1 \<noteq> - 1"
    using IndexInStringSlice_range[of xs x] by arith
  with Cons show ?case by auto
qed

text \<open>
  The measure: the number of remaining elements that are not on the waiting list
  (counting the element of the call itself), and then the number of dependencies that
  the loop has still to look at.
\<close>

termination addToInitOrder
proof (relation "inv_image (less_than <*lex*> less_than) (\<lambda>x. case x of
      Inl (stop, io, e, wl, els, h, s) \<Rightarrow> (card (insert e (set els) - set wl), 0)
    | Inr (stop, ds, io, wl, els, h, s) \<Rightarrow> (card (set els - set wl), Suc (length ds)))",
    goal_cases)
  case 1
  show ?case by (intro wf_inv_image wf_lex_prod wf_less_than)
next
  case (2 stop initOrder element waitingList elements h someSystem)
  then have "element \<notin> set waitingList" by (simp add: IsElementInStringSlice_def)
  then have "set elements - set (waitingList @ [element])
      \<subset> insert element (set elements) - set waitingList"
    by auto
  then have "card (set elements - set (waitingList @ [element]))
      < card (insert element (set elements) - set waitingList)"
    by (intro psubset_card_mono) auto
  then show ?case by simp
next
  case (3 stop dependency rest initOrder waitingList elements h someSystem)
  then show ?case by simp
next
  case (4 stop dependency rest initOrder waitingList elements h someSystem)
  then have "dependency \<in> set elements" by (simp add: IndexInStringSlice_minus1)
  then have "insert dependency (set elements) = set elements" by auto
  then show ?case by simp
next
  case (5 stop dependency rest initOrder waitingList elements h someSystem b x y)
  then have "set y \<subseteq> set elements"
    using elements_shrink_dom(1) by metis
  then have "card (set y - set waitingList) \<le> card (set elements - set waitingList)"
    by (intro card_mono) auto
  then show ?case by auto
qed

subsection \<open>The runs of \<open>addToInitOrder\<close> that succeed\<close>

declare addToInitOrder.simps [simp del]
declare addDependencies.simps(2) [simp del]

lemma addToInitOrder_Inl_circle:
  "IsElementInStringSlice wl e \<Longrightarrow>
     addToInitOrder stop io e wl els h s = Inl (ErrCircleDetected, circleDescp stop e)"
  by (simp add: addToInitOrder.simps)

lemma addToInitOrder_Inr_iff:
  "addToInitOrder stop io e wl els h s = Inr (io', els') \<longleftrightarrow>
     \<not> IsElementInStringSlice wl e \<and>
     (\<exists>io2 els2. addDependencies stop (dependenciesOf h s e) io (wl @ [e]) els h s = Inr (io2, els2)
        \<and> io' = io2 @ [e] \<and> els' = RemoveFromStringSlice els2 e)"
  by (cases "dependenciesOf h s e")
     (auto simp: addToInitOrder.simps split: sum.splits)

lemma addDependencies_Cons_Inr_iff:
  "addDependencies stop (d # ds) io wl els h s = Inr (io', els') \<longleftrightarrow>
     (if IsElementInStringSlice io d
      then addDependencies stop ds io wl els h s = Inr (io', els')
      else IndexInStringSlice els d \<noteq> - 1 \<and>
        (\<exists>io2 els2. addToInitOrder stop io d wl els h s = Inr (io2, els2)
           \<and> addDependencies stop ds io2 wl els2 h s = Inr (io', els')))"
  by (auto simp: addDependencies.simps(2) split: sum.splits)


text \<open>The successful runs, as a relation: one rule for each way through the code.\<close>

inductive added ::
    "string \<Rightarrow> heap \<Rightarrow> System \<Rightarrow> string list \<Rightarrow> string \<Rightarrow> string list \<Rightarrow> string list
      \<Rightarrow> string list \<Rightarrow> string list \<Rightarrow> bool"
  and looped ::
    "string \<Rightarrow> heap \<Rightarrow> System \<Rightarrow> string list \<Rightarrow> string list \<Rightarrow> string list \<Rightarrow> string list
      \<Rightarrow> string list \<Rightarrow> string list \<Rightarrow> bool"
  for stop :: string and h :: heap and s :: System
where
  element: "\<not> IsElementInStringSlice wl e \<Longrightarrow>
      looped stop h s (dependenciesOf h s e) io (wl @ [e]) els io2 els2 \<Longrightarrow>
      added stop h s io e wl els (io2 @ [e]) (RemoveFromStringSlice els2 e)"
| finished: "looped stop h s [] io wl els io els"
| skipped: "IsElementInStringSlice io d \<Longrightarrow> looped stop h s ds io wl els io' els' \<Longrightarrow>
      looped stop h s (d # ds) io wl els io' els'"
| visited: "\<not> IsElementInStringSlice io d \<Longrightarrow> IndexInStringSlice els d \<noteq> - 1 \<Longrightarrow>
      added stop h s io d wl els io2 els2 \<Longrightarrow> looped stop h s ds io2 wl els2 io' els' \<Longrightarrow>
      looped stop h s (d # ds) io wl els io' els'"

lemma success_run:
  "addToInitOrder stop io e wl els h s = Inr (io', els') \<Longrightarrow> added stop h s io e wl els io' els'"
  "addDependencies stop ds io wl els h s = Inr (io', els') \<Longrightarrow>
     looped stop h s ds io wl els io' els'"
proof (induction stop io e wl els h s and stop ds io wl els h s arbitrary: io' els' and io' els'
    rule: addToInitOrder_addDependencies.induct)
  case (1 stop initOrder element waitingList elements h someSystem)
  from 1(2) obtain io2 els2 where
    nw: "\<not> IsElementInStringSlice waitingList element" and
    d: "addDependencies stop (dependenciesOf h someSystem element) initOrder
          (waitingList @ [element]) elements h someSystem = Inr (io2, els2)" and
    r: "io' = io2 @ [element]" "els' = RemoveFromStringSlice els2 element"
    by (auto simp: addToInitOrder_Inr_iff)
  have "looped stop h someSystem (dependenciesOf h someSystem element) initOrder
      (waitingList @ [element]) elements io2 els2"
  proof (cases "length (dependenciesOf h someSystem element) = 0")
    case True
    with d show ?thesis by (auto intro: added_looped.finished)
  next
    case False
    from 1(1)[OF nw False d] show ?thesis .
  qed
  with nw r show ?case by (auto intro: added_looped.element)
next
  case (2 stop initOrder waitingList elements h someSystem)
  then show ?case by (auto intro: added_looped.finished)
next
  case (3 stop dependency rest initOrder waitingList elements h someSystem)
  show ?case
  proof (cases "IsElementInStringSlice initOrder dependency")
    case True
    with 3(4) have "addDependencies stop rest initOrder waitingList elements h someSystem
        = Inr (io', els')"
      by (simp add: addDependencies_Cons_Inr_iff)
    from 3(1)[OF True this] True show ?thesis by (rule added_looped.skipped[rotated])
  next
    case False
    with 3(4) obtain io2 els2 where
      ix: "IndexInStringSlice elements dependency \<noteq> - 1" and
      a: "addToInitOrder stop initOrder dependency waitingList elements h someSystem
            = Inr (io2, els2)" and
      d: "addDependencies stop rest io2 waitingList els2 h someSystem = Inr (io', els')"
      by (auto simp: addDependencies_Cons_Inr_iff)
    from False ix 3(2)[OF False ix a] 3(3)[OF False ix a refl d] show ?thesis
      by (rule added_looped.visited)
  qed
qed

lemma initOrder_grows:
  "added stop h s io e wl els io' els' \<Longrightarrow> prefix io io'"
  "looped stop h s ds io wl els io' els' \<Longrightarrow> prefix io io'"
  by (induction rule: added_looped.inducts) (auto simp: prefix_def)

lemma elements_shrink:
  "added stop h s io e wl els io' els' \<Longrightarrow> set els' \<subseteq> set els \<and> length els' \<le> length els"
  "looped stop h s ds io wl els io' els' \<Longrightarrow> set els' \<subseteq> set els \<and> length els' \<le> length els"
proof (induction rule: added_looped.inducts)
  case (element wl e io els io2 els2)
  moreover have "set (RemoveFromStringSlice els2 e) \<subseteq> set els2"
    by (rule set_RemoveFromStringSlice_subset)
  moreover have "length (RemoveFromStringSlice els2 e) \<le> length els2"
    by (simp add: RemoveFromStringSlice_def)
  ultimately show ?case by auto
qed auto

lemma waiting_kept:
  "added stop h s io e wl els io' els' \<Longrightarrow> x \<in> set wl \<Longrightarrow> x \<in> set els \<Longrightarrow> x \<in> set els'"
  "looped stop h s ds io wl els io' els' \<Longrightarrow> x \<in> set wl \<Longrightarrow> x \<in> set els \<Longrightarrow> x \<in> set els'"
proof (induction rule: added_looped.inducts)
  case (element wl e io els io2 els2)
  then have "x \<noteq> e" "x \<in> set els2" by (auto simp: IsElementInStringSlice_def)
  then show ?case by (simp add: RemoveFromStringSlice_def)
qed auto

lemma added_less:
  assumes "added stop h s io e wl els io' els'" and "e \<in> set els"
  shows "length els' < length els"
  using assms
proof (cases rule: added.cases)
  case (element io2 els2)
  from waiting_kept(2)[OF element(4), of e] assms(2) have "e \<in> set els2" by simp
  then have "length (RemoveFromStringSlice els2 e) < length els2"
    by (simp add: RemoveFromStringSlice_def length_removeAll_less)
  with elements_shrink(2)[OF element(4)] element(2) show ?thesis by simp
qed

lemma dependencies_done:
  "looped stop h s ds io wl els io' els' \<Longrightarrow> set ds \<subseteq> set io'"
proof (induction ds arbitrary: io els)
  case Nil
  show ?case by simp
next
  case (Cons d ds)
  from Cons.prems show ?case
  proof (cases rule: looped.cases)
    case skipped
    with Cons.IH[OF skipped(2)] initOrder_grows(2)[OF skipped(2)] show ?thesis
      by (auto simp: IsElementInStringSlice_def prefix_def)
  next
    case (visited io2 els2)
    from visited(3) have "d \<in> set io2" by (cases rule: added.cases) auto
    with Cons.IH[OF visited(4)] initOrder_grows(2)[OF visited(4)] show ?thesis
      by (auto simp: prefix_def)
  qed
qed

lemma partition_kept:
  "added stop h s io e wl els io' els' \<Longrightarrow>
     distinct io \<Longrightarrow> distinct els \<Longrightarrow> set io \<inter> set els = {} \<Longrightarrow> e \<in> set els \<Longrightarrow>
     distinct io' \<and> distinct els' \<and> set io' \<inter> set els' = {} \<and>
     set io' \<union> set els' = set io \<union> set els"
  "looped stop h s ds io wl els io' els' \<Longrightarrow>
     distinct io \<Longrightarrow> distinct els \<Longrightarrow> set io \<inter> set els = {} \<Longrightarrow>
     distinct io' \<and> distinct els' \<and> set io' \<inter> set els' = {} \<and>
     set io' \<union> set els' = set io \<union> set els"
proof (induction rule: added_looped.inducts)
  case (element wl e io els io2 els2)
  from element have
    inv: "distinct io2" "distinct els2" "set io2 \<inter> set els2 = {}"
      "set io2 \<union> set els2 = set io \<union> set els"
    by auto
  from element have l: "looped stop h s (dependenciesOf h s e) io (wl @ [e]) els io2 els2"
    by simp
  from waiting_kept(2)[OF l, of e] element.prems have e: "e \<in> set els2"
    by simp
  with inv have "e \<notin> set io2" by auto
  with inv e show ?case
    by (auto simp: RemoveFromStringSlice_def distinct_removeAll)
next
  case (finished io wl els)
  then show ?case by simp
next
  case (skipped io d ds wl els io' els')
  then show ?case by simp
next
  case (visited io d els wl io2 els2 ds io' els')
  from visited have "d \<in> set els" by (simp add: IndexInStringSlice_minus1)
  with visited have
    "distinct io2" "distinct els2" "set io2 \<inter> set els2 = {}"
    "set io2 \<union> set els2 = set io \<union> set els"
    by auto
  with visited show ?case by simp
qed

definition dependenciesFirst :: "heap \<Rightarrow> System \<Rightarrow> string list \<Rightarrow> bool" where
  "dependenciesFirst h s order =
     (\<forall>i < length order. set (dependenciesOf h s (order ! i)) \<subseteq> set (take i order))"

lemma dependenciesFirst_snoc:
  "dependenciesFirst h s (xs @ [e]) \<longleftrightarrow>
     dependenciesFirst h s xs \<and> set (dependenciesOf h s e) \<subseteq> set xs"
  unfolding dependenciesFirst_def
proof (intro iffI conjI allI impI)
  fix i
  assume a: "\<forall>i<length (xs @ [e]). set (dependenciesOf h s ((xs @ [e]) ! i))
      \<subseteq> set (take i (xs @ [e]))" and i: "i < length xs"
  from a i have "set (dependenciesOf h s ((xs @ [e]) ! i)) \<subseteq> set (take i (xs @ [e]))"
    by simp
  with i show "set (dependenciesOf h s (xs ! i)) \<subseteq> set (take i xs)"
    by (simp add: nth_append)
next
  assume a: "\<forall>i<length (xs @ [e]). set (dependenciesOf h s ((xs @ [e]) ! i))
      \<subseteq> set (take i (xs @ [e]))"
  then have "length xs < length (xs @ [e]) \<longrightarrow> set (dependenciesOf h s ((xs @ [e]) ! length xs))
      \<subseteq> set (take (length xs) (xs @ [e]))"
    by (rule spec)
  then show "set (dependenciesOf h s e) \<subseteq> set xs" by simp
next
  fix i
  assume a: "(\<forall>i<length xs. set (dependenciesOf h s (xs ! i)) \<subseteq> set (take i xs))
      \<and> set (dependenciesOf h s e) \<subseteq> set xs" and i: "i < length (xs @ [e])"
  show "set (dependenciesOf h s ((xs @ [e]) ! i)) \<subseteq> set (take i (xs @ [e]))"
  proof (cases "i < length xs")
    case True
    with a show ?thesis by (simp add: nth_append)
  next
    case False
    with i have "i = length xs" by simp
    with a show ?thesis by simp
  qed
qed

lemma order_kept:
  "added stop h s io e wl els io' els' \<Longrightarrow> dependenciesFirst h s io \<Longrightarrow>
     dependenciesFirst h s io'"
  "looped stop h s ds io wl els io' els' \<Longrightarrow> dependenciesFirst h s io \<Longrightarrow>
     dependenciesFirst h s io'"
proof (induction rule: added_looped.inducts)
  case (element wl e io els io2 els2)
  from element have l: "looped stop h s (dependenciesOf h s e) io (wl @ [e]) els io2 els2"
    by simp
  from element dependencies_done[OF l] show ?case
    by (simp add: dependenciesFirst_snoc)
qed auto

subsection \<open>\<open>InitOrder\<close>\<close>

function InitOrder_loop ::
    "string list \<Rightarrow> string list \<Rightarrow> heap \<Rightarrow> System \<Rightarrow> failure + string list" where
  "InitOrder_loop initOrder elements h someSystem =
     (if length elements = 0 then Inr initOrder
      else (case addToInitOrder ''.'' initOrder (elements ! 0) [] elements h someSystem of
              Inl err \<Rightarrow> Inl err
            | Inr (initOrder', elements') \<Rightarrow> InitOrder_loop initOrder' elements' h someSystem))"
  by pat_completeness auto

termination
proof (relation "measure (\<lambda>(initOrder, elements, h, someSystem). length elements)", goal_cases)
  case 1
  show ?case by simp
next
  case (2 initOrder elements h someSystem b x y)
  then have "added ''.'' h someSystem initOrder (elements ! 0) [] elements x y"
    by (simp add: success_run(1))
  moreover from 2 have "elements ! 0 \<in> set elements" by simp
  ultimately show ?case by (simp add: added_less)
qed

definition InitOrder :: "heap \<Rightarrow> System \<Rightarrow> failure + string list" where
  "InitOrder h someSystem = InitOrder_loop [] (systemElements someSystem) h someSystem"

datatype panic = IndexOutOfRange

function InitOrder_rev1_loop ::
    "string list \<Rightarrow> string list \<Rightarrow> heap \<Rightarrow> System \<Rightarrow> panic + (failure + string list)" where
  "InitOrder_rev1_loop initOrder elements h someSystem =
     (if length elements = 0 then Inl IndexOutOfRange
      else (case addToInitOrder [] initOrder (elements ! 0) [] elements h someSystem of
              Inl err \<Rightarrow> Inr (Inl err)
            | Inr (initOrder', elements') \<Rightarrow>
                if length elements' = 0 then Inr (Inr initOrder')
                else InitOrder_rev1_loop initOrder' elements' h someSystem))"
  by pat_completeness auto

termination
proof (relation "measure (\<lambda>(initOrder, elements, h, someSystem). length elements)", goal_cases)
  case 1
  show ?case by simp
next
  case (2 initOrder elements h someSystem b x y)
  then have "added [] h someSystem initOrder (elements ! 0) [] elements x y"
    by (simp add: success_run(1))
  moreover from 2 have "elements ! 0 \<in> set elements" by simp
  ultimately show ?case by (simp add: added_less)
qed

definition InitOrder_rev1 :: "heap \<Rightarrow> System \<Rightarrow> panic + (failure + string list)" where
  "InitOrder_rev1 h someSystem = InitOrder_rev1_loop [] (systemElements someSystem) h someSystem"

declare InitOrder_loop.simps [simp del]
declare InitOrder_rev1_loop.simps [simp del]

subsection \<open>The graphs that \<open>New\<close> and \<open>AddElement\<close> build\<close>

lemma Contains_iff: "Contains s substr \<longleftrightarrow> (\<exists>p q. s = p @ substr @ q)"
proof (induction s)
  case Nil
  show ?case by simp
next
  case (Cons c s)
  show ?case
  proof
    assume "Contains (c # s) substr"
    then consider "prefix substr (c # s)" | "Contains s substr" by auto
    then show "\<exists>p q. c # s = p @ substr @ q"
    proof cases
      case 1
      then obtain q where "c # s = substr @ q" by (auto simp: prefix_def)
      then have "c # s = [] @ substr @ q" by simp
      then show ?thesis by blast
    next
      case 2
      with Cons obtain p q where "s = p @ substr @ q" by auto
      then have "c # s = (c # p) @ substr @ q" by simp
      then show ?thesis by blast
    qed
  next
    assume "\<exists>p q. c # s = p @ substr @ q"
    then obtain p q where pq: "c # s = p @ substr @ q" by auto
    show "Contains (c # s) substr"
    proof (cases p)
      case Nil
      with pq have "prefix substr (c # s)" by (simp add: prefix_def)
      then show ?thesis by simp
    next
      case (Cons a p')
      with pq have "s = p' @ substr @ q" by simp
      with Cons.IH show ?thesis by auto
    qed
  qed
qed

inductive reachable :: "System \<Rightarrow> bool" where
  new: "reachable New"
| add: "reachable s \<Longrightarrow> reachable (snd (AddElement e d h s))"

definition consistent :: "System \<Rightarrow> bool" where
  "consistent s \<longleftrightarrow>
     distinct (systemElements s) \<and>
     (\<forall>e \<in> set (systemElements s). Contains (addedElements s) (e @ ''/'')) \<and>
     dom (dependencies s) = set (systemElements s)"

lemma consistent_New: "consistent New"
  by (simp add: consistent_def New_def)

lemma consistent_AddElement:
  assumes "consistent s"
  shows "consistent (snd (AddElement e d h s))"
proof (cases "fst (AddElement e d h s)")
  case (Some err)
  then have "snd (AddElement e d h s) = s"
    by (auto simp: AddElement_def split: if_splits)
  with assms show ?thesis by simp
next
  case None
  then have fresh: "\<not> Contains (addedElements s) (e @ ''/'')" and
    s': "snd (AddElement e d h s) = s
            \<lparr>systemElements := systemElements s @ [e],
             dependencies := (dependencies s)(e \<mapsto> d),
             addedElements := addedElements s @ e @ ''/''\<rparr>"
    by (auto simp: AddElement_def split: if_splits)
  from fresh assms have new: "e \<notin> set (systemElements s)"
    by (auto simp: consistent_def)
  have "Contains (addedElements s @ e @ ''/'') (x @ ''/'')"
    if "x \<in> set (systemElements s @ [e])" for x
  proof (cases "x = e")
    case True
    have "addedElements s @ e @ ''/'' = addedElements s @ (e @ ''/'') @ []" by simp
    with True show ?thesis unfolding Contains_iff by blast
  next
    case False
    with that assms have "Contains (addedElements s) (x @ ''/'')"
      by (auto simp: consistent_def)
    then obtain p q where "addedElements s = p @ (x @ ''/'') @ q"
      unfolding Contains_iff by blast
    then have "addedElements s @ e @ ''/'' = p @ (x @ ''/'') @ (q @ e @ ''/'')" by simp
    then show ?thesis unfolding Contains_iff by blast
  qed
  with new assms show ?thesis
    unfolding s' consistent_def by auto
qed

lemma reachable_consistent: "reachable s \<Longrightarrow> consistent s"
  by (induction rule: reachable.induct) (auto intro: consistent_New consistent_AddElement)

subsection \<open>The points that a call of \<open>InitOrder\<close> passes\<close>

datatype point =
    InitOrderLoop "string list" "string list"
  | AddToInitOrderEntry "string list" string "string list" "string list"
  | DependencyLoop "string list" "string list" "string list" "string list"

inductive reaches :: "heap \<Rightarrow> System \<Rightarrow> point \<Rightarrow> bool" for h :: heap and s :: System where
  start: "reaches h s (InitOrderLoop [] (systemElements s))"
| top_call: "reaches h s (InitOrderLoop io els) \<Longrightarrow> length els \<noteq> 0 \<Longrightarrow>
    reaches h s (AddToInitOrderEntry io (els ! 0) [] els)"
| top_next: "reaches h s (InitOrderLoop io els) \<Longrightarrow> length els \<noteq> 0 \<Longrightarrow>
    addToInitOrder ''.'' io (els ! 0) [] els h s = Inr (io', els') \<Longrightarrow>
    reaches h s (InitOrderLoop io' els')"
| enter: "reaches h s (AddToInitOrderEntry io e wl els) \<Longrightarrow>
    \<not> IsElementInStringSlice wl e \<Longrightarrow> length (dependenciesOf h s e) \<noteq> 0 \<Longrightarrow>
    reaches h s (DependencyLoop (dependenciesOf h s e) io (wl @ [e]) els)"
| skip: "reaches h s (DependencyLoop (d # ds) io wl els) \<Longrightarrow>
    IsElementInStringSlice io d \<Longrightarrow>
    reaches h s (DependencyLoop ds io wl els)"
| dep_call: "reaches h s (DependencyLoop (d # ds) io wl els) \<Longrightarrow>
    \<not> IsElementInStringSlice io d \<Longrightarrow> IndexInStringSlice els d \<noteq> - 1 \<Longrightarrow>
    reaches h s (AddToInitOrderEntry io d wl els)"
| dep_next: "reaches h s (DependencyLoop (d # ds) io wl els) \<Longrightarrow>
    \<not> IsElementInStringSlice io d \<Longrightarrow> IndexInStringSlice els d \<noteq> - 1 \<Longrightarrow>
    addToInitOrder ''.'' io d wl els h s = Inr (io', els') \<Longrightarrow>
    reaches h s (DependencyLoop ds io' wl els')"

fun fails_from :: "heap \<Rightarrow> System \<Rightarrow> point \<Rightarrow> failure \<Rightarrow> bool" where
  "fails_from h s (InitOrderLoop io els) err = (InitOrder_loop io els h s = Inl err)"
| "fails_from h s (AddToInitOrderEntry io e wl els) err =
     (addToInitOrder ''.'' io e wl els h s = Inl err)"
| "fails_from h s (DependencyLoop ds io wl els) err =
     (addDependencies ''.'' ds io wl els h s = Inl err)"

lemma failure_returned:
  "reaches h s p \<Longrightarrow> fails_from h s p err \<Longrightarrow> InitOrder h s = Inl err"
proof (induction arbitrary: err rule: reaches.induct)
  case start
  then show ?case by (simp add: InitOrder_def)
next
  case (top_call io els)
  from top_call.prems top_call.hyps(2) have "InitOrder_loop io els h s = Inl err"
    by (simp add: InitOrder_loop.simps)
  with top_call.IH show ?case by simp
next
  case (top_next io els io' els')
  from top_next.prems top_next.hyps(2,3) have "InitOrder_loop io els h s = Inl err"
    by (simp add: InitOrder_loop.simps[of io els])
  with top_next.IH show ?case by simp
next
  case (enter io e wl els)
  from enter.prems enter.hyps(2,3) have "addToInitOrder ''.'' io e wl els h s = Inl err"
    by (simp add: addToInitOrder.simps[of _ io e wl els])
  with enter.IH show ?case by simp
next
  case (skip d ds io wl els)
  from skip.prems skip.hyps(2) have "addDependencies ''.'' (d # ds) io wl els h s = Inl err"
    by (simp add: addDependencies.simps(2))
  with skip.IH show ?case by simp
next
  case (dep_call d ds io wl els)
  from dep_call.prems dep_call.hyps(2,3)
  have "addDependencies ''.'' (d # ds) io wl els h s = Inl err"
    by (simp add: addDependencies.simps(2))
  with dep_call.IH show ?case by simp
next
  case (dep_next d ds io wl els io' els')
  from dep_next.prems dep_next.hyps(2,3,4)
  have "addDependencies ''.'' (d # ds) io wl els h s = Inl err"
    by (simp add: addDependencies.simps(2))
  with dep_next.IH show ?case by simp
qed

definition partitioned :: "System \<Rightarrow> string list \<Rightarrow> string list \<Rightarrow> bool" where
  "partitioned s io els \<longleftrightarrow>
     distinct io \<and> distinct els \<and> set io \<inter> set els = {} \<and>
     set io \<union> set els = set (systemElements s)"

fun invariant :: "System \<Rightarrow> point \<Rightarrow> bool" where
  "invariant s (InitOrderLoop io els) = partitioned s io els"
| "invariant s (AddToInitOrderEntry io e wl els) =
     (partitioned s io els \<and> set wl \<subseteq> set els \<and> e \<in> set els)"
| "invariant s (DependencyLoop ds io wl els) = (partitioned s io els \<and> set wl \<subseteq> set els)"

lemma partitioned_added:
  assumes "addToInitOrder stop io e wl els h s = Inr (io', els')"
    and "partitioned s io els" and "e \<in> set els"
  shows "partitioned s io' els'"
  using partition_kept(1)[OF success_run(1)[OF assms(1)]] assms(2,3)
  unfolding partitioned_def by simp

lemma reaches_invariant:
  "reaches h s p \<Longrightarrow> distinct (systemElements s) \<Longrightarrow> invariant s p"
proof (induction rule: reaches.induct)
  case start
  then show ?case by (simp add: partitioned_def)
next
  case (top_call io els)
  then show ?case by simp
next
  case (top_next io els io' els')
  then have "partitioned s io els" "els ! 0 \<in> set els" by simp_all
  with top_next.hyps(3) show ?case by (simp add: partitioned_added)
next
  case (enter io e wl els)
  then show ?case by simp
next
  case (skip d ds io wl els)
  then show ?case by simp
next
  case (dep_call d ds io wl els)
  then show ?case by (simp add: IndexInStringSlice_minus1)
next
  case (dep_next d ds io wl els io' els')
  then have p: "partitioned s io els" and w: "set wl \<subseteq> set els" and d: "d \<in> set els"
    by (simp_all add: IndexInStringSlice_minus1)
  from dep_next.hyps(4) p d have "partitioned s io' els'" by (rule partitioned_added)
  moreover from waiting_kept(1)[OF success_run(1)[OF dep_next.hyps(4)]] w
  have "set wl \<subseteq> set els'" by blast
  ultimately show ?case by simp
qed

subsection \<open>The order that \<open>InitOrder\<close> returns\<close>

lemma InitOrder_loop_Inr:
  "InitOrder_loop io els h s = Inr order \<Longrightarrow>
     distinct io \<Longrightarrow> distinct els \<Longrightarrow> set io \<inter> set els = {} \<Longrightarrow> dependenciesFirst h s io \<Longrightarrow>
     distinct order \<and> set order = set io \<union> set els \<and> dependenciesFirst h s order"
proof (induction io els h s rule: InitOrder_loop.induct)
  case (1 initOrder elements h someSystem)
  show ?case
  proof (cases "length elements = 0")
    case True
    with "1.prems" show ?thesis by (simp add: InitOrder_loop.simps)
  next
    case False
    with "1.prems"(1) obtain io' els' where
      a: "addToInitOrder ''.'' initOrder (elements ! 0) [] elements h someSystem
            = Inr (io', els')" and
      l: "InitOrder_loop io' els' h someSystem = Inr order"
      by (auto simp: InitOrder_loop.simps[of initOrder elements] split: sum.splits)
    from False have e: "elements ! 0 \<in> set elements" by simp
    from partition_kept(1)[OF success_run(1)[OF a]] "1.prems" e have
      p: "distinct io'" "distinct els'" "set io' \<inter> set els' = {}"
        "set io' \<union> set els' = set initOrder \<union> set elements"
      by simp_all
    from order_kept(1)[OF success_run(1)[OF a]] "1.prems" have "dependenciesFirst h someSystem io'"
      by simp
    with "1.IH"[OF False a refl l] p show ?thesis by simp
  qed
qed

lemma IndexInStringSlice_nth:
  "distinct xs \<Longrightarrow> i < length xs \<Longrightarrow> IndexInStringSlice xs (xs ! i) = int i"
proof (induction xs arbitrary: i)
  case Nil
  then show ?case by simp
next
  case (Cons a xs)
  show ?case
  proof (cases i)
    case 0
    then show ?thesis by simp
  next
    case (Suc j)
    with Cons.prems have "xs ! j \<noteq> a" "IndexInStringSlice xs (xs ! j) = int j"
      using Cons.IH[of j] by auto
    with Suc show ?thesis by simp
  qed
qed

lemma dependenciesFirst_index:
  assumes "dependenciesFirst h s order" and "distinct order"
    and "e \<in> set order" and "d \<in> set (dependenciesOf h s e)"
  shows "0 \<le> IndexInStringSlice order d \<and> IndexInStringSlice order d < IndexInStringSlice order e"
proof -
  from assms(3) obtain i where i: "i < length order" "order ! i = e"
    by (auto simp: in_set_conv_nth)
  with assms(1,4) have "d \<in> set (take i order)"
    by (auto simp: dependenciesFirst_def)
  then obtain j where j: "j < i" "order ! j = d"
    using i(1) by (auto simp: in_set_conv_nth)
  from assms(2) i j have "IndexInStringSlice order e = int i" "IndexInStringSlice order d = int j"
    using IndexInStringSlice_nth[of order i] IndexInStringSlice_nth[of order j] by simp_all
  with j show ?thesis by simp
qed

lemma InitOrder_Inr:
  assumes "reachable s" and "InitOrder h s = Inr order"
  shows "distinct order" and "set order = set (systemElements s)"
    and "dependenciesFirst h s order"
proof -
  from assms(1) have "distinct (systemElements s)"
    using reachable_consistent by (simp add: consistent_def)
  moreover have "dependenciesFirst h s []" by (simp add: dependenciesFirst_def)
  ultimately show "distinct order" "set order = set (systemElements s)"
    "dependenciesFirst h s order"
    using InitOrder_loop_Inr[of "[]" "systemElements s" h s order] assms(2)
    by (simp_all add: InitOrder_def)
qed

text \<open>
  C1. When \<open>InitOrder\<close> succeeds on a graph built by \<open>New\<close> and \<open>AddElement\<close>, the
  returned order holds every identifier of the graph exactly once, and every dependency
  of an element stands before the element.
\<close>

theorem InitOrder_complete_and_ordered:
  assumes "reachable s" and "InitOrder h s = Inr order"
  shows "distinct order \<and> set order = set (systemElements s) \<and>
    (\<forall>e \<in> set (systemElements s). \<forall>d \<in> set (dependenciesOf h s e).
       d \<in> set (systemElements s) \<longrightarrow>
       0 \<le> IndexInStringSlice order d \<and>
       IndexInStringSlice order d < IndexInStringSlice order e)"
proof -
  note r = InitOrder_Inr[OF assms]
  have "0 \<le> IndexInStringSlice order d \<and> IndexInStringSlice order d < IndexInStringSlice order e"
    if "e \<in> set (systemElements s)" and "d \<in> set (dependenciesOf h s e)" for e d
    using that r by (intro dependenciesFirst_index[of h s]) simp_all
  with r(1,2) show ?thesis by blast
qed

definition linear_heap :: heap where
  "linear_heap = [0 \<mapsto> [''A'', ''B'']]"

definition linear_system :: System where
  "linear_system =
     snd (AddElement ''C'' (Slice 0 0 2) linear_heap
       (snd (AddElement ''B'' (Slice 0 0 1) linear_heap
         (snd (AddElement ''A'' (Slice 0 0 0) linear_heap New)))))"

lemma reachable_linear_system: "reachable linear_system"
  unfolding linear_system_def by (intro reachable.intros)

lemma InitOrder_linear_system: "InitOrder linear_heap linear_system = Inr [''A'', ''B'', ''C'']"
  by code_simp

theorem InitOrder_complete_and_ordered_witness:
  "reachable linear_system \<and>
   InitOrder linear_heap linear_system = Inr [''A'', ''B'', ''C''] \<and>
   set [''A'', ''B'', ''C''] = set (systemElements linear_system) \<and>
   dependenciesOf linear_heap linear_system ''C'' = [''A'', ''B''] \<and>
   IndexInStringSlice [''A'', ''B'', ''C''] ''B'' < IndexInStringSlice [''A'', ''B'', ''C''] ''C''"
proof -
  have c: "systemElements linear_system = [''A'', ''B'', ''C'']"
    by code_simp
  have d: "dependenciesOf linear_heap linear_system ''C'' = [''A'', ''B'']"
    by code_simp
  from InitOrder_complete_and_ordered[OF reachable_linear_system InitOrder_linear_system]
  have "\<forall>e \<in> set (systemElements linear_system).
      \<forall>d \<in> set (dependenciesOf linear_heap linear_system e).
       d \<in> set (systemElements linear_system) \<longrightarrow>
       IndexInStringSlice [''A'', ''B'', ''C''] d < IndexInStringSlice [''A'', ''B'', ''C''] e"
    and "set [''A'', ''B'', ''C''] = set (systemElements linear_system)"
    by simp_all
  with c d reachable_linear_system InitOrder_linear_system show ?thesis by simp
qed

subsection \<open>Circles\<close>







text \<open>
  A graph is closed when every dependency of its elements is an identifier of the graph.
  On a closed graph the only failure is a circle, and it names an identifier of the graph.
\<close>

definition closed :: "heap \<Rightarrow> System \<Rightarrow> bool" where
  "closed h s \<longleftrightarrow>
     (\<forall>e \<in> set (systemElements s). set (dependenciesOf h s e) \<subseteq> set (systemElements s))"




lemma circleDescp_names:
  "circleDescp stop e = circleDescp stop e' \<longleftrightarrow> e = e'"
  by (simp add: circleDescp_def)









subsection \<open>When \<open>InitOrder\<close> succeeds\<close>

text \<open>
  The pairs \<open>(d, e)\<close> of a dependency \<open>d\<close> of an element \<open>e\<close> of the graph. \<open>InitOrder\<close>
  succeeds exactly on the graphs that are closed and have no circle of dependencies.
\<close>

definition depends :: "heap \<Rightarrow> System \<Rightarrow> (string \<times> string) set" where
  "depends h s = {(d, e). e \<in> set (systemElements s) \<and> d \<in> set (dependenciesOf h s e)}"

lemma acyclic_no_failure:
  assumes "closed h s" and "acyclic (depends h s)"
  shows "partitioned s io els \<Longrightarrow> e \<in> set els \<Longrightarrow>
      \<forall>x \<in> set wl. (e, x) \<in> (depends h s)\<^sup>+ \<Longrightarrow>
      \<exists>r. addToInitOrder stop io e wl els h s = Inr r"
    and "partitioned s io els \<Longrightarrow> set ds \<subseteq> set (systemElements s) \<Longrightarrow>
      \<forall>d \<in> set ds. \<forall>x \<in> set wl. (d, x) \<in> (depends h s)\<^sup>+ \<Longrightarrow>
      \<exists>r. addDependencies stop ds io wl els h s = Inr r"
  using assms
proof (induction stop io e wl els h s and stop ds io wl els h s
    rule: addToInitOrder_addDependencies.induct)
  case (1 stop initOrder element waitingList elements h someSystem)
  from "1.prems"(1,2) have g: "element \<in> set (systemElements someSystem)"
    by (auto simp: partitioned_def)
  have nw: "\<not> IsElementInStringSlice waitingList element"
  proof
    assume "IsElementInStringSlice waitingList element"
    with "1.prems"(3) have "(element, element) \<in> (depends h someSystem)\<^sup>+"
      by (simp add: IsElementInStringSlice_def)
    with "1.prems"(5) show False by (simp add: acyclic_def)
  qed
  show ?case
  proof (cases "length (dependenciesOf h someSystem element) = 0")
    case True
    with nw show ?thesis
      by (simp add: addToInitOrder.simps[of stop initOrder element waitingList elements])
  next
    case False
    from g "1.prems"(4) have c: "set (dependenciesOf h someSystem element)
        \<subseteq> set (systemElements someSystem)"
      by (simp add: closed_def)
    have "(d, x) \<in> (depends h someSystem)\<^sup>+"
      if "d \<in> set (dependenciesOf h someSystem element)" and "x \<in> set (waitingList @ [element])"
      for d x
    proof -
      from that(1) g have de: "(d, element) \<in> depends h someSystem"
        by (simp add: depends_def)
      show ?thesis
      proof (cases "x = element")
        case True
        with de show ?thesis by auto
      next
        case False
        with that(2) "1.prems"(3) have "(element, x) \<in> (depends h someSystem)\<^sup>+" by simp
        with de show ?thesis by (rule trancl_into_trancl2)
      qed
    qed
    then have "\<forall>d \<in> set (dependenciesOf h someSystem element).
        \<forall>x \<in> set (waitingList @ [element]). (d, x) \<in> (depends h someSystem)\<^sup>+"
      by blast
    from "1.IH"[OF nw False "1.prems"(1) c this "1.prems"(4,5)] obtain r where
      "addDependencies stop (dependenciesOf h someSystem element) initOrder
         (waitingList @ [element]) elements h someSystem = Inr r" ..
    with nw False show ?thesis
      by (cases r)
        (simp add: addToInitOrder.simps[of stop initOrder element waitingList elements])
  qed
next
  case (2 stop initOrder waitingList elements h someSystem)
  show ?case by simp
next
  case (3 stop dependency rest initOrder waitingList elements h someSystem)
  from "3.prems"(2) have r: "set rest \<subseteq> set (systemElements someSystem)"
    and g: "dependency \<in> set (systemElements someSystem)"
    by simp_all
  from "3.prems"(3) have
    pr: "\<forall>d \<in> set rest. \<forall>x \<in> set waitingList. (d, x) \<in> (depends h someSystem)\<^sup>+" and
    pd: "\<forall>x \<in> set waitingList. (dependency, x) \<in> (depends h someSystem)\<^sup>+"
    by simp_all
  show ?case
  proof (cases "IsElementInStringSlice initOrder dependency")
    case True
    from "3.IH"(1)[OF True "3.prems"(1) r pr "3.prems"(4,5)] True show ?thesis
      by (simp add: addDependencies.simps(2))
  next
    case n: False
    with g "3.prems"(1) have e: "dependency \<in> set elements"
      by (auto simp: partitioned_def IsElementInStringSlice_def)
    then have i: "IndexInStringSlice elements dependency \<noteq> - 1"
      by (simp add: IndexInStringSlice_minus1)
    from "3.IH"(2)[OF n i "3.prems"(1) e pd "3.prems"(4,5)] obtain b where
      a: "addToInitOrder stop initOrder dependency waitingList elements h someSystem = Inr b" ..
    obtain x y where b: "b = (x, y)" by (cases b)
    from a b "3.prems"(1) e have "partitioned someSystem x y"
      by (simp add: partitioned_added)
    from "3.IH"(3)[OF n i a b[symmetric] this r pr "3.prems"(4,5)] n i a b show ?thesis
      by (simp add: addDependencies.simps(2))
  qed
qed

lemma InitOrder_loop_acyclic:
  "partitioned s io els \<Longrightarrow> closed h s \<Longrightarrow> acyclic (depends h s) \<Longrightarrow>
     \<exists>order. InitOrder_loop io els h s = Inr order"
proof (induction io els h s rule: InitOrder_loop.induct)
  case (1 initOrder elements h someSystem)
  show ?case
  proof (cases "length elements = 0")
    case True
    then show ?thesis by (simp add: InitOrder_loop.simps)
  next
    case False
    then have e: "elements ! 0 \<in> set elements" by simp
    from acyclic_no_failure(1)[OF "1.prems"(2,3,1) e, of "[]" "''.''"] obtain b where
      a: "addToInitOrder ''.'' initOrder (elements ! 0) [] elements h someSystem = Inr b"
      by auto
    obtain x y where b: "b = (x, y)" by (cases b)
    from a b "1.prems"(1) e have "partitioned someSystem x y"
      by (simp add: partitioned_added)
    from "1.IH"[OF False a b[symmetric] this "1.prems"(2,3)] False a b show ?thesis
      by (simp add: InitOrder_loop.simps[of initOrder elements])
  qed
qed

lemma ordered_acyclic:
  assumes "\<And>d e. (d, e) \<in> r \<Longrightarrow> f d < (f e :: int)"
  shows "acyclic r"
proof -
  have "f d < f e" if "(d, e) \<in> r\<^sup>+" for d e
    using that
  proof (induction rule: trancl.induct)
    case (r_into_trancl a b)
    then show ?case by (rule assms)
  next
    case (trancl_into_trancl a b c)
    from assms[OF trancl_into_trancl(2)] trancl_into_trancl(3) show ?case by simp
  qed
  then show ?thesis by (fastforce simp: acyclic_def)
qed

lemma InitOrder_succeeds_iff:
  assumes "reachable s"
  shows "(\<exists>order. InitOrder h s = Inr order) \<longleftrightarrow> closed h s \<and> acyclic (depends h s)"
proof
  assume "\<exists>order. InitOrder h s = Inr order"
  then obtain order where o: "InitOrder h s = Inr order" ..
  note io = InitOrder_Inr[OF assms o]
  have c: "closed h s"
    unfolding closed_def
  proof (intro ballI subsetI)
    fix e d
    assume "e \<in> set (systemElements s)" and "d \<in> set (dependenciesOf h s e)"
    from \<open>e \<in> set (systemElements s)\<close> io(2) have "e \<in> set order" by simp
    then obtain i where "i < length order" "order ! i = e"
      unfolding in_set_conv_nth by blast
    with io(3) \<open>d \<in> set (dependenciesOf h s e)\<close> have "d \<in> set (take i order)"
      by (auto simp: dependenciesFirst_def)
    then have "d \<in> set order" by (rule in_set_takeD)
    with io(2) show "d \<in> set (systemElements s)" by simp
  qed
  have "IndexInStringSlice order d < IndexInStringSlice order e"
    if "(d, e) \<in> depends h s" for d e
    using that io dependenciesFirst_index[of h s order e d] by (simp add: depends_def)
  then have "acyclic (depends h s)" by (rule ordered_acyclic)
  with c show "closed h s \<and> acyclic (depends h s)" ..
next
  assume "closed h s \<and> acyclic (depends h s)"
  moreover from assms have "partitioned s [] (systemElements s)"
    using reachable_consistent by (simp add: partitioned_def consistent_def)
  ultimately show "\<exists>order. InitOrder h s = Inr order"
    using InitOrder_loop_acyclic[of s "[]" "systemElements s" h] by (simp add: InitOrder_def)
qed

subsection \<open>Missing dependencies\<close>

definition missing_heap :: heap where
  "missing_heap = [0 \<mapsto> [''Z'']]"

definition missing_system :: System where
  "missing_system = snd (AddElement ''A'' (Slice 0 0 1) missing_heap New)"

lemma InitOrder_missing_system:
  "InitOrder missing_heap missing_system = Inl (ErrElementMissing, missingDescp ''Z'')"
  by code_simp

lemma reaches_partitioned:
  assumes "reachable s" and "reaches h s p"
  shows "invariant s p"
  using assms reaches_invariant reachable_consistent by (simp add: consistent_def)

lemma missingDescp_names:
  "missingDescp d = missingDescp d' \<longleftrightarrow> d = d'"
  by (simp add: missingDescp_def)

text \<open>
  C6. When the loop over the dependencies of an element comes to a dependency \<open>d\<close> that
  is not an identifier of the graph, \<open>InitOrder\<close> returns \<open>ErrElementMissing\<close> and the
  description \<open>Dependency 'd' is missing\<close>. After \<open>AddElement("A", ["Z"])\<close> alone,
  \<open>InitOrder\<close> returns \<open>ErrElementMissing\<close> and \<open>Dependency 'Z' is missing\<close>.
\<close>

theorem missing_dependency_detected:
  "(reachable s \<longrightarrow> reaches h s (DependencyLoop (d # ds) io wl els) \<longrightarrow>
      d \<notin> set (systemElements s) \<longrightarrow>
      InitOrder h s
        = Inl (ErrElementMissing,
            ''Dependency '' @ [CHR 0x27] @ d @ [CHR 0x27] @ '' is missing'')) \<and>
   InitOrder missing_heap missing_system
     = Inl (ErrElementMissing,
         ''Dependency '' @ [CHR 0x27] @ ''Z'' @ [CHR 0x27] @ '' is missing'')"
proof (intro conjI impI)
  assume s: "reachable s" and r: "reaches h s (DependencyLoop (d # ds) io wl els)"
    and d: "d \<notin> set (systemElements s)"
  from reaches_partitioned[OF s r] d have "d \<notin> set io" "d \<notin> set els"
    by (auto simp: partitioned_def)
  then have "fails_from h s (DependencyLoop (d # ds) io wl els)
      (ErrElementMissing, missingDescp d)"
    by (simp add: addDependencies.simps(2) IsElementInStringSlice_def IndexInStringSlice_minus1)
  with r have "InitOrder h s = Inl (ErrElementMissing, missingDescp d)"
    by (rule failure_returned)
  then show "InitOrder h s
      = Inl (ErrElementMissing,
          ''Dependency '' @ [CHR 0x27] @ d @ [CHR 0x27] @ '' is missing'')"
    by (simp add: missingDescp_def)
next
  show "InitOrder missing_heap missing_system
      = Inl (ErrElementMissing,
          ''Dependency '' @ [CHR 0x27] @ ''Z'' @ [CHR 0x27] @ '' is missing'')"
    using InitOrder_missing_system by (simp add: missingDescp_def)
qed

lemma missing_system_fields:
  "systemElements missing_system = [''A'']"
  "dependenciesOf missing_heap missing_system ''A'' = [''Z'']"
  by code_simp+

lemma reachable_missing_system: "reachable missing_system"
  unfolding missing_system_def by (intro reachable.intros)

lemma reaches_missing_system:
  "reaches missing_heap missing_system (DependencyLoop [''Z''] [] [''A''] [''A''])"
proof -
  have 1: "reaches missing_heap missing_system (InitOrderLoop [] [''A''])"
    using reaches.start[of missing_heap missing_system] by (simp add: missing_system_fields)
  have 2: "reaches missing_heap missing_system (AddToInitOrderEntry [] ''A'' [] [''A''])"
    using reaches.top_call[OF 1] by simp
  show ?thesis
    using reaches.enter[OF 2] by (simp add: missing_system_fields IsElementInStringSlice_def)
qed

theorem missing_dependency_detected_witness:
  "reachable missing_system \<and>
   reaches missing_heap missing_system (DependencyLoop [''Z''] [] [''A''] [''A'']) \<and>
   ''Z'' \<notin> set (systemElements missing_system) \<and>
   InitOrder missing_heap missing_system
     = Inl (ErrElementMissing,
         ''Dependency '' @ [CHR 0x27] @ ''Z'' @ [CHR 0x27] @ '' is missing'')"
  using missing_dependency_detected[of missing_system missing_heap "''Z''" "[]" "[]" "[''A'']"
      "[''A'']"]
    reachable_missing_system reaches_missing_system
  by (simp add: missing_system_fields)

subsection \<open>The invariant of the traversal\<close>

text \<open>
  C10. At every entry to \<open>addToInitOrder\<close> during a call of \<open>InitOrder\<close>, each identifier
  of the graph is either among the remaining elements or in the init order, never in
  both, and nothing else is in either; every identifier on the waiting list is among the
  remaining elements. So the test of lines 328-333, "not in the init order and not
  among the remaining elements", holds exactly for a dependency that is not an
  identifier of the graph.
\<close>

theorem traversal_invariant:
  assumes "reachable s"
  shows "(reaches h s (AddToInitOrderEntry io e wl els) \<longrightarrow>
            (\<forall>x \<in> set (systemElements s). (x \<in> set els) \<noteq> (x \<in> set io)) \<and>
            set els \<union> set io \<subseteq> set (systemElements s) \<and>
            set wl \<subseteq> set els) \<and>
         (reaches h s (DependencyLoop (d # ds) io' wl' els') \<longrightarrow>
            (\<not> IsElementInStringSlice io' d \<and> IndexInStringSlice els' d = - 1
               \<longleftrightarrow> d \<notin> set (systemElements s)))"
proof (intro conjI impI)
  assume r: "reaches h s (AddToInitOrderEntry io e wl els)"
  from reaches_partitioned[OF assms r] have p: "partitioned s io els" and w: "set wl \<subseteq> set els"
    by simp_all
  from p show "\<forall>x \<in> set (systemElements s). (x \<in> set els) \<noteq> (x \<in> set io)"
    by (auto simp: partitioned_def)
  from p show "set els \<union> set io \<subseteq> set (systemElements s)"
    by (auto simp: partitioned_def)
  from w show "set wl \<subseteq> set els" .
next
  assume r: "reaches h s (DependencyLoop (d # ds) io' wl' els')"
  from reaches_partitioned[OF assms r] have "partitioned s io' els'" by simp
  then show "\<not> IsElementInStringSlice io' d \<and> IndexInStringSlice els' d = - 1
      \<longleftrightarrow> d \<notin> set (systemElements s)"
    by (auto simp: partitioned_def IsElementInStringSlice_def IndexInStringSlice_minus1)
qed

theorem traversal_invariant_witness:
  "reachable missing_system \<and>
   reaches missing_heap missing_system (AddToInitOrderEntry [] ''A'' [] [''A'']) \<and>
   reaches missing_heap missing_system (DependencyLoop [''Z''] [] [''A''] [''A'']) \<and>
   set [''A''] \<union> set [] \<subseteq> set (systemElements missing_system) \<and>
   (\<not> IsElementInStringSlice [] ''Z'' \<and> IndexInStringSlice [''A''] ''Z'' = - 1) \<and>
   ''Z'' \<notin> set (systemElements missing_system)"
proof -
  have 1: "reaches missing_heap missing_system (InitOrderLoop [] [''A''])"
    using reaches.start[of missing_heap missing_system] by (simp add: missing_system_fields)
  have 2: "reaches missing_heap missing_system (AddToInitOrderEntry [] ''A'' [] [''A''])"
    using reaches.top_call[OF 1] by simp
  from traversal_invariant[OF reachable_missing_system, of missing_heap "[]" "''A''" "[]"
      "[''A'']" "''Z''" "[]" "[]" "[''A'']" "[''A'']"] 2 reaches_missing_system
  have "set [''A''] \<union> set [] \<subseteq> set (systemElements missing_system)"
    and "(\<not> IsElementInStringSlice [] ''Z'' \<and> IndexInStringSlice [''A''] ''Z'' = - 1)
      \<longleftrightarrow> ''Z'' \<notin> set (systemElements missing_system)"
    by simp_all
  with 2 reaches_missing_system reachable_missing_system show ?thesis
    by (simp add: missing_system_fields IsElementInStringSlice_def)
qed

subsection \<open>\<open>AddElement\<close>: the test for an identifier that was added before\<close>

lemma AddElement_again:
  assumes "reachable s" and "e \<in> set (systemElements s)"
  shows "fst (AddElement e d h s) \<noteq> None \<and> snd (AddElement e d h s) = s"
    and "\<not> list_ex (\<lambda>dep. dep = '''') (elems h d) \<Longrightarrow> e \<noteq> '''' \<Longrightarrow>
      AddElement e d h s = (Some ErrAlreadyAdded, s)"
proof -
  from assms have "Contains (addedElements s) (e @ ''/'')"
    using reachable_consistent by (auto simp: consistent_def)
  then show "fst (AddElement e d h s) \<noteq> None \<and> snd (AddElement e d h s) = s"
    and "\<not> list_ex (\<lambda>dep. dep = '''') (elems h d) \<Longrightarrow> e \<noteq> '''' \<Longrightarrow>
      AddElement e d h s = (Some ErrAlreadyAdded, s)"
    by (simp_all add: AddElement_def)
qed

text \<open>
  C3. \<open>AddElement\<close> is meant to return \<open>ErrAlreadyAdded\<close> exactly for an identifier that
  the graph holds. The test of line 224 (line 40 in the first revision) looks for the
  identifier followed by a slash anywhere in \<open>addedElements\<close>, so after \<open>AB\<close> the
  identifier \<open>B\<close>, which the graph does not hold, is refused with \<open>ErrAlreadyAdded\<close>.
\<close>

theorem AddElement_refuses_suffix_of_identifier:
  "fst (AddElement ''B'' (Slice 0 0 0) Map.empty
          (snd (AddElement ''AB'' (Slice 0 0 0) Map.empty New))) = Some ErrAlreadyAdded \<and>
   ''B'' \<notin> set (systemElements (snd (AddElement ''AB'' (Slice 0 0 0) Map.empty New))) \<and>
   fst (AddElement_rev1 ''B'' (Slice 0 0 0)
          (snd (AddElement_rev1 ''AB'' (Slice 0 0 0) New))) = Some ErrAlreadyAdded \<and>
   ''B'' \<notin> set (systemElements (snd (AddElement_rev1 ''AB'' (Slice 0 0 0) New)))"
  by (simp add: AddElement_def AddElement_rev1_def New_def elems_def)

subsection \<open>\<open>InitOrder\<close> on the empty graph\<close>

lemma InitOrder_New: "InitOrder h New = Inr []"
  by (simp add: InitOrder_def New_def InitOrder_loop.simps)

text \<open>
  C2. No operation is meant to panic, and \<open>InitOrder\<close> on a graph without elements is
  meant to return the empty order. The loop of the first revision (lines 78-91) reads
  \<open>elements [0]\<close> before it looks at the length, so on the graph that \<open>New\<close> returns it
  panics with an index out of range; the second revision (lines 262-267) tests the
  length first and returns the empty order.
\<close>

theorem InitOrder_rev1_panics_on_empty_graph:
  "InitOrder_rev1 h New = Inl IndexOutOfRange \<and> InitOrder h New = Inr []"
  by (simp add: InitOrder_rev1_def InitOrder_def New_def InitOrder_rev1_loop.simps
      InitOrder_loop.simps)

subsection \<open>\<open>AddElement\<close>: empty identifiers\<close>

lemma AddElement_empty_identifier:
  "AddElement '''' d h s =
     (Some (ErrorsNew ''Empty string can not be used as ID of an element.''), s)"
  by (simp add: AddElement_def)

lemma AddElement_empty_dependency:
  "e \<noteq> '''' \<Longrightarrow> '''' \<in> set (elems h d) \<Longrightarrow>
     AddElement e d h s = (Some (ErrorsNew ''The ID of a dependency is an empty string.''), s)"
  by (auto simp: AddElement_def list_ex_iff)

definition empty_dependency_heap :: heap where
  "empty_dependency_heap = [0 \<mapsto> ['''']]"

text \<open>
  C7. \<open>AddElement\<close> is meant to refuse an empty identifier and an empty dependency
  identifier and to store nothing then. The second revision does (lines 216-223). The
  first revision (lines 29-48) has no such test: on the new graph it stores the empty
  identifier, and it stores an element whose only dependency is the empty string.
\<close>

theorem AddElement_rev1_stores_empty_identifiers:
  "fst (AddElement_rev1 '''' (Slice 0 0 0) New) = None \<and>
   systemElements (snd (AddElement_rev1 '''' (Slice 0 0 0) New)) = [''''] \<and>
   fst (AddElement_rev1 ''A'' (Slice 0 0 1) New) = None \<and>
   systemElements (snd (AddElement_rev1 ''A'' (Slice 0 0 1) New)) = [''A''] \<and>
   dependenciesOf empty_dependency_heap (snd (AddElement_rev1 ''A'' (Slice 0 0 1) New)) ''A''
     = ['''']"
  by (simp add: AddElement_rev1_def New_def dependenciesOf_def elems_def
      empty_dependency_heap_def)

subsection \<open>Calls of the package, one after the other\<close>

text \<open>
  A caller holds the heap and the system. \<open>perform\<close> gives what a call returns and the
  heap and the system after it: \<open>AddElement\<close> assigns to the three fields of the system
  (lines 227-229) and to nothing else; \<open>InitOrder\<close> and \<open>addToInitOrder\<close> assign to no field
  of the system and to no entry of its map, and the last section (lemma
  \<open>perform_InitOrder_m\<close>) shows on the arrays in memory that they leave the arrays of
  the heap as they were.
\<close>

datatype call = CallAddElement string slice | CallInitOrder

datatype reply = AddElementReturned "error option" | InitOrderReturned "failure + string list"

fun perform :: "call \<Rightarrow> heap \<times> System \<Rightarrow> reply \<times> (heap \<times> System)" where
  "perform (CallAddElement newElement deps) (h, someSystem) =
     (AddElementReturned (fst (AddElement newElement deps h someSystem)),
      (h, snd (AddElement newElement deps h someSystem)))"
| "perform CallInitOrder (h, someSystem) =
     (InitOrderReturned (InitOrder h someSystem), (h, someSystem))"

fun perform_all :: "call list \<Rightarrow> heap \<times> System \<Rightarrow> heap \<times> System" where
  "perform_all [] st = st"
| "perform_all (c # cs) st = perform_all cs (snd (perform c st))"

subsection \<open>What the result of \<open>InitOrder\<close> depends on\<close>

lemma addToInitOrder_depends:
  assumes "\<And>e. dependenciesOf h' t e = dependenciesOf h s e"
  shows "addToInitOrder stop io e wl els h' t = addToInitOrder stop io e wl els h s"
    and "addDependencies stop ds io wl els h' t = addDependencies stop ds io wl els h s"
  using assms
proof (induction stop io e wl els h s and stop ds io wl els h s
    rule: addToInitOrder_addDependencies.induct)
  case (1 stop initOrder element waitingList elements h someSystem)
  note eq = "1.prems"
  show ?case
  proof (cases "IsElementInStringSlice waitingList element
      \<or> length (dependenciesOf h someSystem element) = 0")
    case True
    then show ?thesis
      by (auto simp: addToInitOrder.simps[of stop initOrder element waitingList elements] eq)
  next
    case False
    then have "addDependencies stop (dependenciesOf h someSystem element) initOrder
          (waitingList @ [element]) elements h' t
        = addDependencies stop (dependenciesOf h someSystem element) initOrder
          (waitingList @ [element]) elements h someSystem"
      using "1.IH" eq by simp
    with False show ?thesis
      by (simp add: addToInitOrder.simps[of stop initOrder element waitingList elements] eq)
  qed
next
  case (2 stop initOrder waitingList elements h someSystem)
  show ?case by simp
next
  case (3 stop dependency rest initOrder waitingList elements h someSystem)
  note eq = "3.prems"
  show ?case
  proof (cases "IsElementInStringSlice initOrder dependency")
    case True
    with "3.IH"(1)[OF True eq] show ?thesis by (simp add: addDependencies.simps(2))
  next
    case n: False
    show ?thesis
    proof (cases "IndexInStringSlice elements dependency = - 1")
      case True
      with n show ?thesis by (simp add: addDependencies.simps(2))
    next
      case False
      from "3.IH"(2)[OF n False eq]
      have a: "addToInitOrder stop initOrder dependency waitingList elements h' t
          = addToInitOrder stop initOrder dependency waitingList elements h someSystem"
        by simp
      show ?thesis
      proof (cases "addToInitOrder stop initOrder dependency waitingList elements h someSystem")
        case (Inl err)
        with a n False show ?thesis by (simp add: addDependencies.simps(2))
      next
        case (Inr b)
        obtain x y where b: "b = (x, y)" by (cases b)
        from "3.IH"(3)[OF n False Inr b[symmetric] eq]
        have "addDependencies stop rest x waitingList y h' t
            = addDependencies stop rest x waitingList y h someSystem"
          by simp
        with a n False Inr b show ?thesis by (simp add: addDependencies.simps(2))
      qed
    qed
  qed
qed

lemma InitOrder_loop_depends:
  assumes "\<And>e. dependenciesOf h' t e = dependenciesOf h s e"
  shows "InitOrder_loop io els h' t = InitOrder_loop io els h s"
  using assms
proof (induction io els h s rule: InitOrder_loop.induct)
  case (1 initOrder elements h someSystem)
  note eq = "1.prems"
  show ?case
  proof (cases "length elements = 0")
    case True
    then show ?thesis by (simp add: InitOrder_loop.simps)
  next
    case False
    have a: "addToInitOrder ''.'' initOrder (elements ! 0) [] elements h' t
        = addToInitOrder ''.'' initOrder (elements ! 0) [] elements h someSystem"
      using eq by (rule addToInitOrder_depends(1))
    show ?thesis
    proof (cases "addToInitOrder ''.'' initOrder (elements ! 0) [] elements h someSystem")
      case (Inl err)
      with a False show ?thesis by (simp add: InitOrder_loop.simps[of initOrder elements])
    next
      case (Inr b)
      obtain x y where b: "b = (x, y)" by (cases b)
      from "1.IH"[OF False Inr b[symmetric] eq]
      have "InitOrder_loop x y h' t = InitOrder_loop x y h someSystem" by simp
      with a False Inr b show ?thesis
        by (simp add: InitOrder_loop.simps[of initOrder elements])
    qed
  qed
qed

subsection \<open>The dependencies that \<open>AddElement\<close> stores\<close>

lemma AddElement_keeps_dependencies:
  assumes "consistent s" and "dependencies s e = Some d"
  shows "dependencies (snd (AddElement e' d' h' s)) e = Some d"
proof (cases "e' = e")
  case True
  from assms have "e \<in> set (systemElements s)" by (auto simp: consistent_def)
  with assms(1) have "Contains (addedElements s) (e @ ''/'')" by (simp add: consistent_def)
  with True have "snd (AddElement e' d' h' s) = s" by (simp add: AddElement_def)
  with assms(2) show ?thesis by simp
next
  case False
  with assms(2) show ?thesis by (simp add: AddElement_def)
qed

lemma perform_all_keeps_dependencies:
  "consistent s \<Longrightarrow> dependencies s e = Some d \<Longrightarrow>
     fst (perform_all cs (h, s)) = h \<and> dependencies (snd (perform_all cs (h, s))) e = Some d"
proof (induction cs arbitrary: s)
  case Nil
  then show ?case by simp
next
  case (Cons c cs)
  show ?case
  proof (cases c)
    case (CallAddElement e' d')
    from Cons.prems have "consistent (snd (AddElement e' d' h s))"
      "dependencies (snd (AddElement e' d' h s)) e = Some d"
      by (simp_all add: consistent_AddElement AddElement_keeps_dependencies)
    with Cons.IH CallAddElement show ?thesis by simp
  next
    case CallInitOrder
    with Cons show ?thesis by simp
  qed
qed

text \<open>
  C9, as amended. A successful \<open>AddElement(id, dependencyIds)\<close> records against \<open>id\<close>
  the slice \<open>dependencyIds\<close> itself: the same array, with its elements in the given
  order, and not a copy. No later call of \<open>AddElement\<close> or \<open>InitOrder\<close> changes the
  recorded slice or the heap, so the stored list stays as it is under the operations of
  the package.
\<close>

theorem AddElement_records_slice:
  assumes "reachable s" and "AddElement e d h s = (None, s')"
  shows "dependencies s' e = Some d \<and> dependenciesOf h s' e = elems h d \<and>
    (\<forall>cs. fst (perform_all cs (h, s')) = h \<and>
          dependencies (snd (perform_all cs (h, s'))) e = Some d \<and>
          dependenciesOf (fst (perform_all cs (h, s'))) (snd (perform_all cs (h, s'))) e
            = elems h d)"
proof -
  from assms(2) have d: "dependencies s' e = Some d"
    by (auto simp: AddElement_def split: if_splits)
  from assms(1) have "consistent (snd (AddElement e d h s))"
    by (intro consistent_AddElement reachable_consistent)
  with assms(2) have "consistent s'" by simp
  from perform_all_keeps_dependencies[OF this d] d show ?thesis
    by (simp add: dependenciesOf_def)
qed

definition shared_heap :: heap where
  "shared_heap = [0 \<mapsto> [''B'']]"

definition shared_system :: System where
  "shared_system = snd (AddElement ''A'' (Slice 0 0 1) shared_heap New)"

definition overwritten_heap :: heap where
  "overwritten_heap = [0 \<mapsto> [''C'']]"

theorem AddElement_records_slice_witness:
  "reachable New \<and> AddElement ''A'' (Slice 0 0 1) shared_heap New = (None, shared_system) \<and>
   dependencies shared_system ''A'' = Some (Slice 0 0 1) \<and>
   dependenciesOf shared_heap shared_system ''A'' = [''B''] \<and>
   dependenciesOf shared_heap
     (snd (perform_all [CallInitOrder, CallAddElement ''A'' (Slice 1 0 0)]
        (shared_heap, shared_system))) ''A'' = [''B'']"
proof -
  have a: "AddElement ''A'' (Slice 0 0 1) shared_heap New = (None, shared_system)"
    by (simp add: shared_system_def AddElement_def New_def shared_heap_def elems_def)
  have e: "elems shared_heap (Slice 0 0 1) = [''B'']"
    by (simp add: shared_heap_def elems_def)
  define cs where "cs = [CallInitOrder, CallAddElement ''A'' (Slice 1 0 0)]"
  note r = AddElement_records_slice[OF reachable.new a]
  from r e have 1: "dependencies shared_system ''A'' = Some (Slice 0 0 1)"
    and 2: "dependenciesOf shared_heap shared_system ''A'' = [''B'']"
    by simp_all
  from r have "fst (perform_all cs (shared_heap, shared_system)) = shared_heap"
    and "dependenciesOf (fst (perform_all cs (shared_heap, shared_system)))
        (snd (perform_all cs (shared_heap, shared_system))) ''A''
      = elems shared_heap (Slice 0 0 1)"
    by blast+
  with e have "dependenciesOf shared_heap (snd (perform_all cs (shared_heap, shared_system)))
      ''A'' = [''B'']"
    by simp
  with a 1 2 reachable.new show ?thesis unfolding cs_def by blast
qed

text \<open>
  C9, as stated, fails: \<open>AddElement\<close> makes no copy. When the caller, after a successful
  \<open>AddElement("A", deps)\<close> with \<open>deps = ["B"]\<close>, assigns \<open>deps[0] = "C"\<close>, the list that the
  graph holds for \<open>A\<close> is \<open>["C"]\<close>.
\<close>

theorem caller_store_changes_stored_dependencies:
  "fst (AddElement ''A'' (Slice 0 0 1) shared_heap New) = None \<and>
   dependenciesOf shared_heap shared_system ''A'' = [''B''] \<and>
   store (Slice 0 0 1) 0 ''C'' shared_heap = Some overwritten_heap \<and>
   dependenciesOf overwritten_heap shared_system ''A'' = [''C'']"
  by (simp add: shared_system_def shared_heap_def overwritten_heap_def AddElement_def New_def
      elems_def store_def dependenciesOf_def)

section \<open>\<open>InitOrder\<close> on the arrays in memory\<close>

text \<open>
  The functions above work on the elements of the slices. This section follows the same
  lines 252-359 with every slice as a window on an array of the memory, so that the
  sharing of an array by two slices (line 255), the appends that write in place
  (lines 315, 320, 355) and the arrays that a call writes are part of the model. The
  memory is the list of the arrays allocated so far, and the address of an array is its
  index in the list.
\<close>

type_synonym memory = "string list list"

definition heap_of :: "memory \<Rightarrow> heap" where
  "heap_of m = (\<lambda>a. if a < length m then Some (m ! a) else None)"

definition contents :: "memory \<Rightarrow> slice \<Rightarrow> string list" where
  "contents m s = elems (heap_of m) s"

text \<open>
  The structure of lines 191-200 with the field \<open>systemElements\<close> as the slice that it
  holds, and the graph on lists that it stands for in a memory.
\<close>

record System_m =
  systemElements_m :: slice
  dependencies_m :: "string \<rightharpoonup> slice"
  addedElements_m :: string

definition system_of :: "memory \<Rightarrow> System_m \<Rightarrow> System" where
  "system_of m someSystem =
     \<lparr>systemElements = contents m (systemElements_m someSystem),
      dependencies = dependencies_m someSystem,
      addedElements = addedElements_m someSystem\<rparr>"

text \<open>
  The expression \<^verbatim>\<open>someSystem.dependencies [element]\<close> (lines 313, 325): the slice stored for
  the key, and the nil slice, of no element, for a key that the map does not hold.
\<close>

definition lookup_m :: "System_m \<Rightarrow> string \<Rightarrow> slice" where
  "lookup_m someSystem element =
     (case dependencies_m someSystem element of None \<Rightarrow> Slice 0 0 0 | Some d \<Rightarrow> d)"

text \<open>The literal \<^verbatim>\<open>[]string {}\<close> of lines 256 and 257: no element and no capacity.\<close>

definition emptySlice :: "memory \<Rightarrow> slice \<times> memory" where
  "emptySlice m = (Slice (length m) 0 0, m @ [[]])"

text \<open>
  The capacity of a slice: the places from its first element to the end of its array.
\<close>

definition capacity :: "memory \<Rightarrow> slice \<Rightarrow> nat" where
  "capacity m s = (if array s < length m then length (m ! array s) - low s else 0)"

text \<open>
  The built-in \<open>append\<close> of one value. When the capacity exceeds the length, the value is
  written in place, behind the last element of the slice, into the array that the slice
  shares with every other slice on it. Otherwise a new array is allocated: it holds the
  elements of the slice, the value, and the spare places that the runtime adds, whose
  number \<open>room\<close> gives from the old capacity and the new length.
\<close>

definition append_m :: "(nat \<Rightarrow> nat \<Rightarrow> nat) \<Rightarrow> slice \<Rightarrow> string \<Rightarrow> memory \<Rightarrow> slice \<times> memory" where
  "append_m room s x m =
     (if len s < capacity m s
      then (Slice (array s) (low s) (len s + 1),
            m[array s := (m ! array s)[low s + len s := x]])
      else (Slice (length m) 0 (len s + 1),
            m @ [contents m s @ [x] @ replicate (room (capacity m s) (len s + 1)) '''']))"

text \<open>
  Modelled from the spec: \<open>slices.RemoveFromStringSlice\<close>, which is not among the sources,
  on the memory. The slice that it returns lies on a new array; the array of its argument
  is left as it is.
\<close>

definition RemoveFromStringSlice_m :: "slice \<Rightarrow> string \<Rightarrow> memory \<Rightarrow> slice \<times> memory" where
  "RemoveFromStringSlice_m s x m =
     (Slice (length m) 0 (length (RemoveFromStringSlice (contents m s) x)),
      m @ [RemoveFromStringSlice (contents m s) x])"

text \<open>
  Lines 280-359, and the loop of lines 325-348 from the index \<open>i\<close> on, with the memory
  passed from statement to statement. The parameters are the slices themselves; the
  structure is read (lines 313, 325) and no statement assigns to one of its fields or to
  an entry of its map, so it is a parameter and not a result. The slice that line 353
  assigns to \<open>waitingList\<close> is not used again. The first argument bounds the depth of the
  calls; \<open>None\<close> says that it did not suffice.
\<close>

type_synonym 'a run = "('a \<times> memory) option"


fun addToInitOrder_m ::
    "nat \<Rightarrow> (nat \<Rightarrow> nat \<Rightarrow> nat) \<Rightarrow> string \<Rightarrow> slice \<Rightarrow> string \<Rightarrow> slice \<Rightarrow> slice \<Rightarrow> System_m \<Rightarrow> memory
      \<Rightarrow> (failure + slice \<times> slice) run"
  and addDependencies_m ::
    "nat \<Rightarrow> (nat \<Rightarrow> nat \<Rightarrow> nat) \<Rightarrow> string \<Rightarrow> slice \<Rightarrow> nat \<Rightarrow> slice \<Rightarrow> slice \<Rightarrow> slice \<Rightarrow> System_m \<Rightarrow> memory
      \<Rightarrow> (failure + slice \<times> slice) run"
where
  "addToInitOrder_m 0 room stop initOrder element waitingList elements someSystem m = None"
| "addToInitOrder_m (Suc fuel) room stop initOrder element waitingList elements someSystem m =
     (if IsElementInStringSlice (contents m waitingList) element
      then Some (Inl (ErrCircleDetected, circleDescp stop element), m)
      else if length (contents m (lookup_m someSystem element)) = 0
      then (case RemoveFromStringSlice_m elements element m of (elements1, m1) \<Rightarrow>
            case append_m room initOrder element m1 of (initOrder1, m2) \<Rightarrow>
              Some (Inr (initOrder1, elements1), m2))
      else (case append_m room waitingList element m of (waitingList1, m1) \<Rightarrow>
            case addDependencies_m fuel room stop (lookup_m someSystem element) 0 initOrder
                   waitingList1 elements someSystem m1 of
              None \<Rightarrow> None
            | Some (Inl err, m2) \<Rightarrow> Some (Inl err, m2)
            | Some (Inr (initOrder2, elements2), m2) \<Rightarrow>
                (case RemoveFromStringSlice_m waitingList1 element m2 of (waitingList3, m3) \<Rightarrow>
                 case RemoveFromStringSlice_m elements2 element m3 of (elements4, m4) \<Rightarrow>
                 case append_m room initOrder2 element m4 of (initOrder5, m5) \<Rightarrow>
                   Some (Inr (initOrder5, elements4), m5))))"
| "addDependencies_m 0 room stop deps i initOrder waitingList elements someSystem m = None"
| "addDependencies_m (Suc fuel) room stop deps i initOrder waitingList elements someSystem m =
     (if i < length (contents m deps)
      then (if IsElementInStringSlice (contents m initOrder) (contents m deps ! i)
            then addDependencies_m fuel room stop deps (i + 1) initOrder waitingList elements
                   someSystem m
            else if IndexInStringSlice (contents m elements) (contents m deps ! i) = - 1
            then Some (Inl (ErrElementMissing, missingDescp (contents m deps ! i)), m)
            else (case addToInitOrder_m fuel room stop initOrder (contents m deps ! i)
                         waitingList elements someSystem m of
                    None \<Rightarrow> None
                  | Some (Inl err, m1) \<Rightarrow> Some (Inl err, m1)
                  | Some (Inr (initOrder1, elements1), m1) \<Rightarrow>
                      addDependencies_m fuel room stop deps (i + 1) initOrder1 waitingList
                        elements1 someSystem m1))
      else Some (Inr (initOrder, elements), m))"

text \<open>
  Lines 262-275 and 252-278. \<open>elements\<close> begins as the slice that the structure holds
  (line 255): the two share one array.
\<close>

fun InitOrder_loop_m ::
    "nat \<Rightarrow> (nat \<Rightarrow> nat \<Rightarrow> nat) \<Rightarrow> slice \<Rightarrow> slice \<Rightarrow> slice \<Rightarrow> System_m \<Rightarrow> memory
      \<Rightarrow> (failure + slice) run" where
  "InitOrder_loop_m 0 room initOrder waitingList elements someSystem m = None"
| "InitOrder_loop_m (Suc fuel) room initOrder waitingList elements someSystem m =
     (if length (contents m elements) = 0 then Some (Inr initOrder, m)
      else (case addToInitOrder_m fuel room ''.'' initOrder (contents m elements ! 0)
                   waitingList elements someSystem m of
              None \<Rightarrow> None
            | Some (Inl err, m1) \<Rightarrow> Some (Inl err, m1)
            | Some (Inr (initOrder1, elements1), m1) \<Rightarrow>
                InitOrder_loop_m fuel room initOrder1 waitingList elements1 someSystem m1))"

definition InitOrder_m ::
    "nat \<Rightarrow> (nat \<Rightarrow> nat \<Rightarrow> nat) \<Rightarrow> System_m \<Rightarrow> memory \<Rightarrow> (failure + slice) run" where
  "InitOrder_m fuel room someSystem m =
     (case emptySlice m of (initOrder, m1) \<Rightarrow>
      case emptySlice m1 of (waitingList, m2) \<Rightarrow>
        InitOrder_loop_m fuel room initOrder waitingList (systemElements_m someSystem)
          someSystem m2)"

lemma capacity_iff:
  "len s < capacity m s \<longleftrightarrow> array s < length m \<and> low s + len s < length (m ! array s)"
  by (auto simp: capacity_def)

lemma append_m_alt:
  "append_m room s x m =
     (if array s < length m \<and> low s + len s < length (m ! array s)
      then (Slice (array s) (low s) (len s + 1),
            m[array s := (m ! array s)[low s + len s := x]])
      else (Slice (length m) 0 (len s + 1),
            m @ [contents m s @ [x] @ replicate (room (capacity m s) (len s + 1)) '''']))"
  by (simp add: append_m_def capacity_iff)


subsection \<open>What the operations do to the memory\<close>

lemma contents_alloc: "array s < length m \<Longrightarrow> contents (m @ ms) s = contents m s"
  by (simp add: contents_def elems_def heap_of_def nth_append)

lemma contents_new: "contents (m @ [xs]) (Slice (length m) 0 (length xs)) = xs"
  by (simp add: contents_def elems_def heap_of_def)

text \<open>A slice that lies within an array of the memory.\<close>

definition in_range :: "memory \<Rightarrow> slice \<Rightarrow> bool" where
  "in_range m s \<longleftrightarrow> array s < length m \<and> low s + len s \<le> length (m ! array s)"

lemma length_contents: "in_range m s \<Longrightarrow> length (contents m s) = len s"
  by (auto simp: in_range_def contents_def elems_def heap_of_def)

text \<open>
  \<open>kept m io wl m'\<close>: from \<open>m\<close> to \<open>m'\<close> no array is lost or resized, the arrays other
  than those of \<open>io\<close> and \<open>wl\<close> are unchanged, and so is every slice that ends within \<open>wl\<close>.
\<close>

definition kept :: "memory \<Rightarrow> slice \<Rightarrow> slice \<Rightarrow> memory \<Rightarrow> bool" where
  "kept m io wl m' \<longleftrightarrow>
     length m \<le> length m' \<and>
     (\<forall>a < length m. length (m' ! a) = length (m ! a)) \<and>
     (\<forall>a < length m. a \<noteq> array io \<longrightarrow> a \<noteq> array wl \<longrightarrow> m' ! a = m ! a) \<and>
     (\<forall>t. array t < length m \<longrightarrow> array t \<noteq> array io \<longrightarrow>
          (array t \<noteq> array wl \<or> low t + len t \<le> low wl + len wl) \<longrightarrow>
          contents m' t = contents m t)"

definition follows :: "memory \<Rightarrow> slice \<Rightarrow> slice \<Rightarrow> bool" where
  "follows m s s' \<longleftrightarrow>
     (array s' = array s \<and> low s' = low s \<and> len s \<le> len s') \<or> length m \<le> array s'"

lemma follows_refl: "follows m s s"
  by (simp add: follows_def)

lemma kept_refl: "kept m io wl m"
  by (simp add: kept_def)

lemma kept_trans:
  assumes "kept m io wl m1" and "kept m1 io1 wl1 m2"
    and "follows m io io1" and "follows m wl wl1"
  shows "kept m io wl m2"
  unfolding kept_def
proof (intro conjI allI impI)
  from assms(1,2) show "length m \<le> length m2" by (simp add: kept_def)
next
  fix a assume "a < length m"
  with assms(1,2) show "length (m2 ! a) = length (m ! a)" by (simp add: kept_def)
next
  fix a assume a: "a < length m" "a \<noteq> array io" "a \<noteq> array wl"
  with assms(3,4) have "a \<noteq> array io1" "a \<noteq> array wl1" by (auto simp: follows_def)
  with a assms(1,2) show "m2 ! a = m ! a" by (simp add: kept_def)
next
  fix t assume t: "array t < length m" "array t \<noteq> array io"
    "array t \<noteq> array wl \<or> low t + len t \<le> low wl + len wl"
  with assms(1) have 1: "contents m1 t = contents m t" by (simp add: kept_def)
  from t assms(3) have "array t \<noteq> array io1" by (auto simp: follows_def)
  moreover from t assms(4) have "array t \<noteq> array wl1 \<or> low t + len t \<le> low wl1 + len wl1"
    by (auto simp: follows_def)
  moreover from t assms(1) have "array t < length m1" by (simp add: kept_def)
  ultimately have "contents m2 t = contents m1 t" using assms(2) by (simp add: kept_def)
  with 1 show "contents m2 t = contents m t" by simp
qed

lemma kept_alloc: "kept m io wl (m @ ms)"
  by (simp add: kept_def nth_append contents_alloc)

lemma RemoveFromStringSlice_m_effect:
  assumes "RemoveFromStringSlice_m s x m = (s', m')"
  shows "kept m io wl m'" and "array s' = length m" and "length m' = Suc (length m)"
    and "contents m' s' = RemoveFromStringSlice (contents m s) x"
  using assms by (auto simp: RemoveFromStringSlice_m_def kept_alloc contents_new)

lemma emptySlice_effect:
  assumes "emptySlice m = (s', m')"
  shows "m' = m @ [[]]" and "s' = Slice (length m) 0 0" and "contents m' s' = []"
    and "in_range m' s'"
  using assms by (auto simp: emptySlice_def contents_def elems_def in_range_def heap_of_def)

lemma contents_write_other:
  assumes "array t \<noteq> a \<or> low t + len t \<le> k"
  shows "contents (m[a := (m ! a)[k := x]]) t = contents m t"
proof (cases "array t = a \<and> a < length m")
  case True
  with assms have "low t + len t \<le> k" by simp
  then have "take (len t) (drop (low t) ((m ! a)[k := x])) = take (len t) (drop (low t) (m ! a))"
    by (simp add: drop_update_swap)
  with True show ?thesis by (simp add: contents_def elems_def heap_of_def)
next
  case False
  then show ?thesis by (auto simp: contents_def elems_def heap_of_def)
qed

lemma append_m_follows:
  assumes "append_m room s x m = (s', m')"
  shows "follows m s s'" and "array s' < length m'" and "len s' = len s + 1"
  using assms by (auto simp: append_m_alt follows_def split: if_splits)

lemma append_m_kept_waiting:
  assumes "append_m room wl x m = (wl', m')"
  shows "kept m io wl m'"
proof (cases "array wl < length m \<and> low wl + len wl < length (m ! array wl)")
  case True
  with assms have m': "m' = m[array wl := (m ! array wl)[low wl + len wl := x]]"
    by (simp add: append_m_alt)
  from True show ?thesis
    unfolding kept_def m'
    by (auto simp: nth_list_update contents_write_other)
next
  case False
  with assms show ?thesis by (auto simp: append_m_alt kept_alloc)
qed

lemma append_m_kept_order:
  assumes "append_m room io x m = (io', m')"
  shows "kept m io wl m'"
proof (cases "array io < length m \<and> low io + len io < length (m ! array io)")
  case True
  with assms have m': "m' = m[array io := (m ! array io)[low io + len io := x]]"
    by (simp add: append_m_alt)
  from True show ?thesis
    unfolding kept_def m'
    by (auto simp: nth_list_update contents_write_other)
next
  case False
  with assms show ?thesis by (auto simp: append_m_alt kept_alloc)
qed

lemma append_m_contents:
  assumes "append_m room s x m = (s', m')" and "in_range m s"
  shows "contents m' s' = contents m s @ [x]" and "in_range m' s'"
proof -
  show "contents m' s' = contents m s @ [x]"
  proof (cases "low s + len s < length (m ! array s)")
    case True
    with assms have s': "s' = Slice (array s) (low s) (len s + 1)"
      and m': "m' = m[array s := (m ! array s)[low s + len s := x]]"
      by (simp_all add: append_m_alt in_range_def)
    from True assms(2) show ?thesis
      unfolding s' m'
      by (simp add: contents_def elems_def heap_of_def in_range_def take_Suc_conv_app_nth
          drop_update_swap)
  next
    case False
    with assms have s': "s' = Slice (length m) 0 (len s + 1)"
      and m': "m' = m @ [contents m s @ [x] @ replicate (room (capacity m s) (len s + 1)) '''']"
      by (simp_all add: append_m_alt)
    from assms(2) have "length (contents m s) = len s" by (rule length_contents)
    then show ?thesis
      unfolding s' m' by (simp add: contents_def elems_def heap_of_def)
  qed
  show "in_range m' s'"
  proof (cases "low s + len s < length (m ! array s)")
    case True
    with assms show ?thesis by (auto simp: append_m_alt in_range_def)
  next
    case False
    with assms have s': "s' = Slice (length m) 0 (len s + 1)"
      and m': "m' = m @ [contents m s @ [x] @ replicate (room (capacity m s) (len s + 1)) '''']"
      by (simp_all add: append_m_alt)
    from assms(2) have "length (contents m s) = len s" by (rule length_contents)
    then show ?thesis unfolding s' m' by (simp add: in_range_def)
  qed
qed

lemma addToInitOrder_m_Suc_cases:
  assumes "addToInitOrder_m (Suc fuel) room stop io e wl els st m = Some (res, m')"
  obtains
    (circle) "IsElementInStringSlice (contents m wl) e"
      "res = Inl (ErrCircleDetected, circleDescp stop e)" "m' = m"
  | (leaf) els1 m1 io1 where "\<not> IsElementInStringSlice (contents m wl) e"
      "length (contents m (lookup_m st e)) = 0"
      "RemoveFromStringSlice_m els e m = (els1, m1)" "append_m room io e m1 = (io1, m')"
      "res = Inr (io1, els1)"
  | (failed) wl1 m1 err where "\<not> IsElementInStringSlice (contents m wl) e"
      "length (contents m (lookup_m st e)) \<noteq> 0"
      "append_m room wl e m = (wl1, m1)"
      "addDependencies_m fuel room stop (lookup_m st e) 0 io wl1 els st m1 = Some (Inl err, m')"
      "res = Inl err"
  | (node) wl1 m1 io2 els2 m2 wl3 m3 els4 m4 io5 where
      "\<not> IsElementInStringSlice (contents m wl) e"
      "length (contents m (lookup_m st e)) \<noteq> 0"
      "append_m room wl e m = (wl1, m1)"
      "addDependencies_m fuel room stop (lookup_m st e) 0 io wl1 els st m1
         = Some (Inr (io2, els2), m2)"
      "RemoveFromStringSlice_m wl1 e m2 = (wl3, m3)"
      "RemoveFromStringSlice_m els2 e m3 = (els4, m4)"
      "append_m room io2 e m4 = (io5, m')"
      "res = Inr (io5, els4)"
  using assms
  by (auto split: if_splits prod.splits option.splits sum.splits)

lemma addDependencies_m_Suc_cases:
  assumes "addDependencies_m (Suc fuel) room stop d i io wl els st m = Some (res, m')"
  obtains
    (finished) "\<not> i < length (contents m d)" "res = Inr (io, els)" "m' = m"
  | (skipped) "i < length (contents m d)"
      "IsElementInStringSlice (contents m io) (contents m d ! i)"
      "addDependencies_m fuel room stop d (i + 1) io wl els st m = Some (res, m')"
  | (missing) "i < length (contents m d)"
      "\<not> IsElementInStringSlice (contents m io) (contents m d ! i)"
      "IndexInStringSlice (contents m els) (contents m d ! i) = - 1"
      "res = Inl (ErrElementMissing, missingDescp (contents m d ! i))" "m' = m"
  | (failed) err where "i < length (contents m d)"
      "\<not> IsElementInStringSlice (contents m io) (contents m d ! i)"
      "IndexInStringSlice (contents m els) (contents m d ! i) \<noteq> - 1"
      "addToInitOrder_m fuel room stop io (contents m d ! i) wl els st m = Some (Inl err, m')"
      "res = Inl err"
  | (visited) io1 els1 m1 where "i < length (contents m d)"
      "\<not> IsElementInStringSlice (contents m io) (contents m d ! i)"
      "IndexInStringSlice (contents m els) (contents m d ! i) \<noteq> - 1"
      "addToInitOrder_m fuel room stop io (contents m d ! i) wl els st m
         = Some (Inr (io1, els1), m1)"
      "addDependencies_m fuel room stop d (i + 1) io1 wl els1 st m1 = Some (res, m')"
proof (cases "i < length (contents m d)")
  case False
  with assms have "res = Inr (io, els)" "m' = m" by simp_all
  with False show ?thesis by (rule finished)
next
  case len: True
  show ?thesis
  proof (cases "IsElementInStringSlice (contents m io) (contents m d ! i)")
    case True
    with len assms
    have "addDependencies_m fuel room stop d (i + 1) io wl els st m = Some (res, m')"
      by simp
    with len True show ?thesis by (rule skipped)
  next
    case notin: False
    show ?thesis
    proof (cases "IndexInStringSlice (contents m els) (contents m d ! i) = - 1")
      case True
      with len notin assms
      have "res = Inl (ErrElementMissing, missingDescp (contents m d ! i))" "m' = m"
        by auto
      with len notin True show ?thesis by (rule missing)
    next
      case idx: False
      show ?thesis
      proof (cases "addToInitOrder_m fuel room stop io (contents m d ! i) wl els st m")
        case None
        with len notin idx assms show ?thesis by simp
      next
        case (Some x)
        obtain r m1 where x: "x = (r, m1)" by (cases x)
        show ?thesis
        proof (cases r)
          case (Inl err)
          with len notin idx assms Some x have "res = Inl err" "m1 = m'" by simp_all
          with len notin idx Some x Inl show ?thesis by (intro failed[of err]) simp_all
        next
          case (Inr b)
          obtain io1 els1 where b: "b = (io1, els1)" by (cases b)
          with len notin idx assms Some x Inr
          have "addDependencies_m fuel room stop d (i + 1) io1 wl els1 st m1 = Some (res, m')"
            by simp
          with len notin idx Some x Inr b show ?thesis
            by (intro visited[of io1 els1 m1]) simp_all
        qed
      qed
    qed
  qed
qed

lemma follows_trans:
  "follows m s s1 \<Longrightarrow> follows m1 s1 s2 \<Longrightarrow> length m \<le> length m1 \<Longrightarrow> follows m s s2"
  by (auto simp: follows_def)

lemma follows_new: "length m \<le> array s' \<Longrightarrow> follows m s s'"
  by (simp add: follows_def)

lemma kept_length: "kept m io wl m' \<Longrightarrow> length m \<le> length m'"
  by (simp add: kept_def)

lemma kept_step:
  assumes "kept m io wl m1" and "kept m1 io1 wl1 m2"
    and "follows m io io1" and "follows m wl wl1"
  shows "kept m io wl m2"
  using assms by (rule kept_trans)

lemma effects:
  "(\<forall>stop io e wl els st m res m'.
      addToInitOrder_m fuel room stop io e wl els st m = Some (res, m') \<longrightarrow>
      kept m io wl m' \<and>
      (\<forall>io' els'. res = Inr (io', els') \<longrightarrow> follows m io io' \<and> follows m els els')) \<and>
   (\<forall>stop d i io wl els st m res m'.
      addDependencies_m fuel room stop d i io wl els st m = Some (res, m') \<longrightarrow>
      kept m io wl m' \<and>
      (\<forall>io' els'. res = Inr (io', els') \<longrightarrow> follows m io io' \<and> follows m els els'))"
proof (induction fuel)
  case 0
  show ?case by simp
next
  case (Suc fuel)
  note A = Suc[THEN conjunct1, rule_format]
  note D = Suc[THEN conjunct2, rule_format]
  note Ak = A[THEN conjunct1] and Af = A[THEN conjunct2, rule_format]
  note Dk = D[THEN conjunct1] and Df = D[THEN conjunct2, rule_format]
  show ?case
  proof (rule conjI; intro allI impI)
    fix stop io e wl els st m res m'
    assume "addToInitOrder_m (Suc fuel) room stop io e wl els st m = Some (res, m')"
    then show "kept m io wl m' \<and>
      (\<forall>io' els'. res = Inr (io', els') \<longrightarrow> follows m io io' \<and> follows m els els')"
    proof (cases rule: addToInitOrder_m_Suc_cases)
      case circle
      then show ?thesis by (simp add: kept_refl)
    next
      case (leaf els1 m1 io1)
      note r = RemoveFromStringSlice_m_effect[OF leaf(3)]
      from r(1)[of io wl] append_m_kept_order[OF leaf(4), of wl] have "kept m io wl m'"
        by (rule kept_step) (simp_all add: follows_refl)
      moreover from append_m_follows(1)[OF leaf(4)] r(3) have "follows m io io1"
        by (auto simp: follows_def)
      moreover from r(2) have "follows m els els1" by (simp add: follows_def)
      ultimately show ?thesis using leaf(5) by simp
    next
      case (failed wl1 m1 err)
      from append_m_kept_waiting[OF failed(3), of io] Dk[OF failed(4)]
      have "kept m io wl m'"
        by (rule kept_step) (simp_all add: follows_refl append_m_follows(1)[OF failed(3)])
      with failed(5) show ?thesis by simp
    next
      case (node wl1 m1 io2 els2 m2 wl3 m3 els4 m4 io5)
      note w = append_m_kept_waiting[OF node(3), of io]
      note fw = append_m_follows(1)[OF node(3)]
      from Df[OF node(4) refl] have fio2: "follows m1 io io2" and fels2: "follows m1 els els2"
        by simp_all
      from w have l1: "length m \<le> length m1" by (rule kept_length)
      from Dk[OF node(4)] have l2: "length m1 \<le> length m2" by (rule kept_length)
      note r3 = RemoveFromStringSlice_m_effect[OF node(5)]
      note r4 = RemoveFromStringSlice_m_effect[OF node(6)]
      note a5 = append_m_kept_order[OF node(7), of wl1]
      from fio2 l1 have fio: "follows m io io2" by (auto simp: follows_def)
      from w Dk[OF node(4)] have k2: "kept m io wl m2"
        by (rule kept_step) (simp_all add: follows_refl fw)
      from r3(1)[of io2 wl1] r4(1)[of io2 wl1] have "kept m2 io2 wl1 m4"
        by (rule kept_step) (simp_all add: follows_refl)
      from this a5 have "kept m2 io2 wl1 m'"
        by (rule kept_step) (simp_all add: follows_refl)
      with k2 have "kept m io wl m'"
        by (rule kept_step) (simp_all add: fio fw)
      moreover from append_m_follows(1)[OF node(7)] fio l1 l2 r3(3) r4(3)
      have "follows m io io5" by (auto simp: follows_def)
      moreover from r4(2) l1 l2 r3(3) have "follows m els els4" by (simp add: follows_def)
      ultimately show ?thesis using node(8) by simp
    qed
  next
    fix stop d i io wl els st m res m'
    assume "addDependencies_m (Suc fuel) room stop d i io wl els st m = Some (res, m')"
    then show "kept m io wl m' \<and>
      (\<forall>io' els'. res = Inr (io', els') \<longrightarrow> follows m io io' \<and> follows m els els')"
    proof (cases rule: addDependencies_m_Suc_cases)
      case finished
      then show ?thesis by (simp add: kept_refl follows_refl)
    next
      case skipped
      from D[OF skipped(3)] show ?thesis .
    next
      case missing
      then show ?thesis by (simp add: kept_refl)
    next
      case (failed err)
      from Ak[OF failed(4)] failed(5) show ?thesis by simp
    next
      case (visited io1 els1 m1)
      from Af[OF visited(4) refl] have f1: "follows m io io1" "follows m els els1"
        by simp_all
      from Ak[OF visited(4)] have l: "length m \<le> length m1" by (rule kept_length)
      from Ak[OF visited(4)] Dk[OF visited(5)] have "kept m io wl m'"
        by (rule kept_step) (simp_all add: f1 follows_refl)
      moreover have "follows m io io' \<and> follows m els els'" if "res = Inr (io', els')"
        for io' els'
        using Df[OF visited(5) that] f1 l by (auto intro: follows_trans)
      ultimately show ?thesis by blast
    qed
  qed
qed

lemma more_fuel_Suc:
  "(\<forall>stop io e wl els st m x.
      addToInitOrder_m fuel room stop io e wl els st m = Some x \<longrightarrow>
      addToInitOrder_m (Suc fuel) room stop io e wl els st m = Some x) \<and>
   (\<forall>stop d i io wl els st m x.
      addDependencies_m fuel room stop d i io wl els st m = Some x \<longrightarrow>
      addDependencies_m (Suc fuel) room stop d i io wl els st m = Some x)"
proof (induction fuel)
  case 0
  show ?case by simp
next
  case (Suc fuel)
  note A = Suc[THEN conjunct1, rule_format]
  note D = Suc[THEN conjunct2, rule_format]
  show ?case
  proof (rule conjI; intro allI impI)
    fix stop io e wl els st m x
    assume a: "addToInitOrder_m (Suc fuel) room stop io e wl els st m = Some x"
    obtain res m' where x: "x = (res, m')" by (cases x)
    from a[unfolded x] show "addToInitOrder_m (Suc (Suc fuel)) room stop io e wl els st m = Some x"
    proof (cases rule: addToInitOrder_m_Suc_cases)
      case circle
      then show ?thesis unfolding x
        by (simp add: addToInitOrder_m.simps(2)[of "Suc fuel"])
    next
      case (leaf els1 m1 io1)
      then show ?thesis unfolding x
        by (simp add: addToInitOrder_m.simps(2)[of "Suc fuel"])
    next
      case (failed wl1 m1 err)
      from D[OF failed(4)] failed(1,2,3,5) show ?thesis unfolding x
        by (simp add: addToInitOrder_m.simps(2)[of "Suc fuel"]
            del: addDependencies_m.simps addToInitOrder_m.simps)
    next
      case (node wl1 m1 io2 els2 m2 wl3 m3 els4 m4 io5)
      from D[OF node(4)] node(1,2,3,5,6,7,8) show ?thesis unfolding x
        by (simp add: addToInitOrder_m.simps(2)[of "Suc fuel"]
            del: addDependencies_m.simps addToInitOrder_m.simps)
    qed
  next
    fix stop d i io wl els st m x
    assume a: "addDependencies_m (Suc fuel) room stop d i io wl els st m = Some x"
    obtain res m' where x: "x = (res, m')" by (cases x)
    from a[unfolded x]
    show "addDependencies_m (Suc (Suc fuel)) room stop d i io wl els st m = Some x"
    proof (cases rule: addDependencies_m_Suc_cases)
      case finished
      then show ?thesis unfolding x
        by (simp add: addDependencies_m.simps(2)[of "Suc fuel"])
    next
      case skipped
      from D[OF skipped(3)] skipped(1,2) show ?thesis unfolding x
        by (simp add: addDependencies_m.simps(2)[of "Suc fuel"]
            del: addDependencies_m.simps addToInitOrder_m.simps)
    next
      case missing
      then show ?thesis unfolding x
        by (simp add: addDependencies_m.simps(2)[of "Suc fuel"])
    next
      case (failed err)
      from A[OF failed(4)] failed(1,2,3,5) show ?thesis unfolding x
        by (simp add: addDependencies_m.simps(2)[of "Suc fuel"]
            del: addDependencies_m.simps addToInitOrder_m.simps)
    next
      case (visited io1 els1 m1)
      from A[OF visited(4)] D[OF visited(5)] visited(1,2,3) show ?thesis unfolding x
        by (simp add: addDependencies_m.simps(2)[of "Suc fuel"]
            del: addDependencies_m.simps addToInitOrder_m.simps)
    qed
  qed
qed

lemma more_fuel:
  assumes "fuel \<le> fuel'"
  shows "addToInitOrder_m fuel room stop io e wl els st m = Some x \<Longrightarrow>
      addToInitOrder_m fuel' room stop io e wl els st m = Some x"
    and "addDependencies_m fuel room stop d i io wl els st m = Some x \<Longrightarrow>
      addDependencies_m fuel' room stop d i io wl els st m = Some x"
  using assms
proof (induction fuel' arbitrary: )
  case 0
  { case 1 then show ?case by simp }
  { case 2 then show ?case by simp }
next
  case (Suc fuel')
  { case 1
    show ?case
    proof (cases "fuel = Suc fuel'")
      case True
      with 1 show ?thesis by simp
    next
      case False
      with 1 Suc(1) have "addToInitOrder_m fuel' room stop io e wl els st m = Some x" by simp
      then show ?thesis by (rule more_fuel_Suc[THEN conjunct1, rule_format])
    qed }
  { case 2
    show ?case
    proof (cases "fuel = Suc fuel'")
      case True
      with 2 show ?thesis by simp
    next
      case False
      with 2 Suc(2) have "addDependencies_m fuel' room stop d i io wl els st m = Some x"
        by simp
      then show ?thesis by (rule more_fuel_Suc[THEN conjunct2, rule_format])
    qed }
qed

lemma contents_empty: "len s = 0 \<Longrightarrow> contents m s = []"
  by (simp add: contents_def elems_def split: option.splits)

lemma in_range_kept: "in_range m s \<Longrightarrow> kept m io wl m' \<Longrightarrow> in_range m' s"
  by (auto simp: in_range_def kept_def)

lemma in_range_alloc: "in_range m s \<Longrightarrow> in_range (m @ ms) s"
  by (auto simp: in_range_def nth_append)

lemma append_m_other:
  assumes "append_m room s x m = (s', m')" and "array t < length m" and "array t \<noteq> array s"
  shows "contents m' t = contents m t"
  using append_m_kept_order[OF assms(1), of t] assms(2,3) by (simp add: kept_def)

lemma kept_waiting:
  assumes "kept m io wl m'" and "in_range m wl" and "array wl \<noteq> array io"
  shows "contents m' wl = contents m wl" and "in_range m' wl"
  using assms by (auto simp: kept_def in_range_def)

text \<open>A slice of the graph: its array was there before the call began, or it is empty.\<close>

definition stable :: "nat \<Rightarrow> slice \<Rightarrow> bool" where
  "stable n0 d \<longleftrightarrow> len d = 0 \<or> array d < n0"

lemma stable_append:
  assumes "stable n0 d" and "append_m room s x m = (s', m')"
    and "n0 \<le> array s" and "n0 \<le> length m"
  shows "contents m' d = contents m d"
proof (cases "len d = 0")
  case True
  then show ?thesis by (simp add: contents_empty)
next
  case False
  with assms(1) have "array d < n0" by (simp add: stable_def)
  with assms(3,4) have "array d < length m" "array d \<noteq> array s" by simp_all
  with assms(2) show ?thesis by (rule append_m_other)
qed

lemma stable_alloc:
  assumes "stable n0 d" and "n0 \<le> length m"
  shows "contents (m @ ms) d = contents m d"
proof (cases "len d = 0")
  case True
  then show ?thesis by (simp add: contents_empty)
next
  case False
  with assms have "array d < length m" by (simp add: stable_def)
  then show ?thesis by (rule contents_alloc)
qed

lemma stable_kept:
  assumes "stable n0 d" and "kept m io wl m'"
    and "n0 \<le> array io" and "n0 \<le> array wl" and "n0 \<le> length m"
  shows "contents m' d = contents m d"
proof (cases "len d = 0")
  case True
  then show ?thesis by (simp add: contents_empty)
next
  case False
  with assms(1) have "array d < n0" by (simp add: stable_def)
  with assms(2-5) show ?thesis by (simp add: kept_def)
qed

text \<open>The two statements that end \<open>addToInitOrder\<close>: lines 314-315 and 354-355.\<close>

lemma remove_then_append:
  assumes "RemoveFromStringSlice_m els e m = (els1, m1)"
    and "append_m room io e m1 = (io1, m2)"
    and "in_range m io" and "array els < length m"
  shows "contents m2 io1 = contents m io @ [e]"
    and "contents m2 els1 = RemoveFromStringSlice (contents m els) e"
    and "in_range m2 io1" and "array els1 = length m" and "array els1 < length m2"
    and "array els1 \<noteq> array io1" and "follows m io io1"
    and "length m < length m2"
proof -
  from assms(1) have m1: "m1 = m @ [RemoveFromStringSlice (contents m els) e]"
    and els1: "els1 = Slice (length m) 0 (length (RemoveFromStringSlice (contents m els) e))"
    by (simp_all add: RemoveFromStringSlice_m_def)
  from assms(3) have r1: "in_range m1 io" unfolding m1 by (rule in_range_alloc)
  from assms(3) have c1: "contents m1 io = contents m io"
    unfolding m1 by (simp add: contents_alloc in_range_def)
  from append_m_contents[OF assms(2) r1] c1
  show "contents m2 io1 = contents m io @ [e]" and "in_range m2 io1" by simp_all
  from els1 show a: "array els1 = length m" by simp
  from assms(3) have io: "array io < length m" by (simp add: in_range_def)
  from append_m_follows[OF assms(2)] have f: "follows m1 io io1" and l: "array io1 < length m2"
    by simp_all
  from f io m1 a show n: "array els1 \<noteq> array io1" by (auto simp: follows_def)
  from f m1 show "follows m io io1" by (auto simp: follows_def)
  from append_m_kept_order[OF assms(2), of io] have l12: "length m1 \<le> length m2"
    by (rule kept_length)
  with m1 a show "array els1 < length m2" and "length m < length m2" by simp_all
  have "contents m1 els1 = RemoveFromStringSlice (contents m els) e"
    unfolding m1 els1 by (rule contents_new)
  moreover have "contents m2 els1 = contents m1 els1"
  proof (rule append_m_other[OF assms(2)])
    from a m1 show "array els1 < length m1" by simp
    from a io show "array els1 \<noteq> array io" by simp
  qed
  ultimately show "contents m2 els1 = RemoveFromStringSlice (contents m els) e" by simp
qed

subsection \<open>The run in memory and the run on lists\<close>

text \<open>
  What holds of the slices whenever \<open>addToInitOrder\<close> is entered during a call of
  \<open>InitOrder\<close> that began with \<open>n0\<close> arrays in the memory: \<open>initOrder\<close> and \<open>waitingList\<close>
  lie on two arrays that the call has allocated, and \<open>elements\<close> on a third one.
\<close>

definition ready :: "nat \<Rightarrow> memory \<Rightarrow> slice \<Rightarrow> slice \<Rightarrow> slice \<Rightarrow> bool" where
  "ready n0 m io wl els \<longleftrightarrow>
     n0 \<le> array io \<and> n0 \<le> array wl \<and> array io \<noteq> array wl \<and>
     array els \<noteq> array io \<and> array els \<noteq> array wl \<and> array els < length m \<and>
     in_range m io \<and> in_range m wl"

text \<open>The arrays of the stored dependencies were there before the call began.\<close>

definition below :: "nat \<Rightarrow> System_m \<Rightarrow> bool" where
  "below n0 st \<longleftrightarrow> (\<forall>e d. dependencies_m st e = Some d \<longrightarrow> array d < n0)"

lemma below_stable: "below n0 st \<Longrightarrow> stable n0 (lookup_m st e)"
  by (auto simp: below_def stable_def lookup_m_def split: option.splits)

text \<open>The result of the run in memory holds what the run on lists returns.\<close>

definition matches ::
    "memory \<Rightarrow> failure + slice \<times> slice \<Rightarrow> failure + string list \<times> string list \<Rightarrow> bool" where
  "matches m' res v \<longleftrightarrow>
     (case res of
        Inl err \<Rightarrow> v = Inl err
      | Inr (io', els') \<Rightarrow> v = Inr (contents m' io', contents m' els'))"

lemma ready_length: "ready n0 m io wl els \<Longrightarrow> n0 \<le> length m"
  by (auto simp: ready_def in_range_def)

lemma from_Suc:
  assumes "\<And>k. N \<le> k \<Longrightarrow> f (Suc k) = y"
  shows "\<forall>fuel \<ge> Suc N. f fuel = y"
proof (intro allI impI)
  fix fuel :: nat
  assume "Suc N \<le> fuel"
  then obtain k where "fuel = Suc k" "N \<le> k" by (cases fuel) auto
  with assms show "f fuel = y" by simp
qed

lemma simulation:
  assumes b: "below n0 st"
  shows
    "ready n0 m io wl els \<Longrightarrow> (\<forall>x. contents m (lookup_m st x) = dependenciesOf H S x) \<Longrightarrow>
       contents m io = iov \<Longrightarrow> contents m wl = wlv \<Longrightarrow> contents m els = elsv \<Longrightarrow>
       \<exists>N res m'.
         (\<forall>fuel \<ge> N. addToInitOrder_m fuel room stop io e wl els st m = Some (res, m')) \<and>
         matches m' res (addToInitOrder stop iov e wlv elsv H S) \<and>
         (\<forall>io' els'. res = Inr (io', els') \<longrightarrow> ready n0 m' io' wl els')"
    and
    "ready n0 m io wl els \<Longrightarrow> (\<forall>x. contents m (lookup_m st x) = dependenciesOf H S x) \<Longrightarrow>
       contents m io = iov \<Longrightarrow> contents m wl = wlv \<Longrightarrow> contents m els = elsv \<Longrightarrow>
       stable n0 d \<Longrightarrow> drop i (contents m d) = ds \<Longrightarrow>
       \<exists>N res m'.
         (\<forall>fuel \<ge> N. addDependencies_m fuel room stop d i io wl els st m = Some (res, m')) \<and>
         matches m' res (addDependencies stop ds iov wlv elsv H S) \<and>
         (\<forall>io' els'. res = Inr (io', els') \<longrightarrow> ready n0 m' io' wl els')"
proof (induction stop iov e wlv elsv H S and stop ds iov wlv elsv H S
    arbitrary: m io wl els and m io wl els d i
    rule: addToInitOrder_addDependencies.induct)
  case (1 stop iov e wlv elsv H S)
  note rdy = "1.prems"(1) and agree = "1.prems"(2)
    and cio = "1.prems"(3) and cwl = "1.prems"(4) and cels = "1.prems"(5)
  from rdy have rio: "in_range m io" and rwl: "in_range m wl" and aels: "array els < length m"
    and n0io: "n0 \<le> array io" and n0wl: "n0 \<le> array wl" and iowl: "array io \<noteq> array wl"
    and elsio: "array els \<noteq> array io" and elswl: "array els \<noteq> array wl"
    by (simp_all add: ready_def)
  from rdy have n0m: "n0 \<le> length m" by (rule ready_length)
  from agree have dep: "contents m (lookup_m st e) = dependenciesOf H S e" by simp
  show ?case
  proof (cases "IsElementInStringSlice wlv e")
    case True
    have "\<forall>fuel \<ge> Suc 0. addToInitOrder_m fuel room stop io e wl els st m
        = Some (Inl (ErrCircleDetected, circleDescp stop e), m)"
      using True cwl by (intro from_Suc) simp
    moreover have "matches m (Inl (ErrCircleDetected, circleDescp stop e))
        (addToInitOrder stop iov e wlv elsv H S)"
      using True by (simp add: matches_def addToInitOrder_Inl_circle)
    ultimately show ?thesis by blast
  next
    case nw: False
    show ?thesis
    proof (cases "length (dependenciesOf H S e) = 0")
      case True
      obtain els1 m1 where r: "RemoveFromStringSlice_m els e m = (els1, m1)"
        by (cases "RemoveFromStringSlice_m els e m")
      obtain io1 m2 where a: "append_m room io e m1 = (io1, m2)"
        by (cases "append_m room io e m1")
      note f = remove_then_append[OF r a rio aels]
      have run: "\<forall>fuel \<ge> Suc 0. addToInitOrder_m fuel room stop io e wl els st m
          = Some (Inr (io1, els1), m2)"
        using nw True cwl dep r a by (intro from_Suc) simp
      from run[rule_format, OF le_refl] have k: "kept m io wl m2"
        by (rule effects[THEN conjunct1, rule_format, THEN conjunct1])
      have "addToInitOrder stop iov e wlv elsv H S
          = Inr (iov @ [e], RemoveFromStringSlice elsv e)"
        using nw True by (simp add: addToInitOrder.simps)
      with f(1,2) cio cels
      have mt: "matches m2 (Inr (io1, els1)) (addToInitOrder stop iov e wlv elsv H S)"
        by (simp add: matches_def)
      from f(7) n0io n0m have "n0 \<le> array io1" by (auto simp: follows_def)
      moreover from f(7) iowl rwl have "array io1 \<noteq> array wl"
        by (auto simp: follows_def in_range_def)
      moreover from f(4) rwl have "array els1 \<noteq> array wl" by (simp add: in_range_def)
      moreover note f(3,5,6) n0wl kept_waiting(2)[OF k rwl iowl[symmetric]]
      ultimately have "ready n0 m2 io1 wl els1" by (simp add: ready_def)
      with run mt show ?thesis by blast
    next
      case False
      obtain wl1 m1 where w: "append_m room wl e m = (wl1, m1)"
        by (cases "append_m room wl e m")
      note wc = append_m_contents[OF w rwl]
      note wf = append_m_follows[OF w]
      note wk = append_m_kept_waiting[OF w, of io]
      from wk have l1: "length m \<le> length m1" by (rule kept_length)
      from rio have aio: "array io < length m" by (simp add: in_range_def)
      from rwl have awl: "array wl < length m" by (simp add: in_range_def)
      have cio1: "contents m1 io = iov"
        using append_m_other[OF w aio iowl] cio by simp
      have cels1: "contents m1 els = elsv"
        using append_m_other[OF w aels elswl] cels by simp
      have rio1: "in_range m1 io" using rio wk by (rule in_range_kept)
      have agree1: "\<forall>x. contents m1 (lookup_m st x) = dependenciesOf H S x"
        using agree stable_append[OF below_stable[OF b] w n0wl n0m] by simp
      from wf(1) n0wl n0m have "n0 \<le> array wl1" by (auto simp: follows_def)
      moreover from wf(1) iowl aio have "array io \<noteq> array wl1" by (auto simp: follows_def)
      moreover from wf(1) elswl aels have "array els \<noteq> array wl1" by (auto simp: follows_def)
      moreover from aels l1 have "array els < length m1" by simp
      ultimately have rdy1: "ready n0 m1 io wl1 els"
        using n0io elsio rio1 wc(2) by (simp add: ready_def)
      have cwl1: "contents m1 wl1 = wlv @ [e]" using wc(1) cwl by simp
      have dr: "drop 0 (contents m1 (lookup_m st e)) = dependenciesOf H S e"
        using agree1 by simp
      from "1.IH"[OF nw False rdy1 agree1 cio1 cwl1 cels1 below_stable[OF b] dr]
      obtain N res2 m2 where
        runD: "\<forall>fuel \<ge> N. addDependencies_m fuel room stop (lookup_m st e) 0 io wl1 els st m1
          = Some (res2, m2)" and
        matD: "matches m2 res2 (addDependencies stop (dependenciesOf H S e) iov (wlv @ [e])
          elsv H S)" and
        rdD: "\<forall>io' els'. res2 = Inr (io', els') \<longrightarrow> ready n0 m2 io' wl1 els'"
        by blast
      show ?thesis
      proof (cases res2)
        case (Inl err)
        have run: "\<forall>fuel \<ge> Suc N. addToInitOrder_m fuel room stop io e wl els st m
            = Some (Inl err, m2)"
          using nw False cwl dep w runD Inl by (intro from_Suc) simp
        from matD Inl nw False
        have "matches m2 (Inl err) (addToInitOrder stop iov e wlv elsv H S)"
          by (simp add: matches_def addToInitOrder.simps)
        with run show ?thesis by blast
      next
        case (Inr p)
        obtain io2 els2 where p: "p = (io2, els2)" by (cases p)
        from rdD Inr p have rdy2: "ready n0 m2 io2 wl1 els2" by simp
        obtain wl3 m3 where r3: "RemoveFromStringSlice_m wl1 e m2 = (wl3, m3)"
          by (cases "RemoveFromStringSlice_m wl1 e m2")
        obtain els4 m4 where r4: "RemoveFromStringSlice_m els2 e m3 = (els4, m4)"
          by (cases "RemoveFromStringSlice_m els2 e m3")
        obtain io5 m5 where a5: "append_m room io2 e m4 = (io5, m5)"
          by (cases "append_m room io2 e m4")
        from r3 have m3: "m3 = m2 @ [RemoveFromStringSlice (contents m2 wl1) e]"
          by (simp add: RemoveFromStringSlice_m_def)
        from rdy2 have rio2: "in_range m2 io2" and aels2: "array els2 < length m2"
          and n0io2: "n0 \<le> array io2"
          by (simp_all add: ready_def)
        from rio2 have rio3: "in_range m3 io2" unfolding m3 by (rule in_range_alloc)
        from aels2 have aels3: "array els2 < length m3" unfolding m3 by simp
        note f = remove_then_append[OF r4 a5 rio3 aels3]
        from rio2 have cio3: "contents m3 io2 = contents m2 io2"
          unfolding m3 by (simp add: contents_alloc in_range_def)
        from aels2 have cels3: "contents m3 els2 = contents m2 els2"
          unfolding m3 by (simp add: contents_alloc)
        have run: "\<forall>fuel \<ge> Suc N. addToInitOrder_m fuel room stop io e wl els st m
            = Some (Inr (io5, els4), m5)"
          using nw False cwl dep w runD Inr p r3 r4 a5 by (intro from_Suc) simp
        note ef = effects[THEN conjunct1, rule_format, OF run[rule_format, OF le_refl]]
        from ef have k: "kept m io wl m5" by simp
        from ef have fio: "follows m io io5" by simp
        from matD Inr p nw False
        have "addToInitOrder stop iov e wlv elsv H S
            = Inr (contents m2 io2 @ [e], RemoveFromStringSlice (contents m2 els2) e)"
          by (simp add: matches_def addToInitOrder.simps)
        with f(1,2) cio3 cels3
        have mt: "matches m5 (Inr (io5, els4)) (addToInitOrder stop iov e wlv elsv H S)"
          by (simp add: matches_def)
        from fio n0io n0m have "n0 \<le> array io5" by (auto simp: follows_def)
        moreover from fio iowl awl have "array io5 \<noteq> array wl" by (auto simp: follows_def)
        moreover from runD[rule_format, OF le_refl] have "kept m1 io wl1 m2"
          by (rule effects[THEN conjunct2, rule_format, THEN conjunct1])
        then have "length m1 \<le> length m2" by (rule kept_length)
        with f(4) l1 awl m3 have "array els4 \<noteq> array wl" by simp
        moreover note f(3,5,6) n0wl kept_waiting(2)[OF k rwl iowl[symmetric]]
        ultimately have "ready n0 m5 io5 wl els4" by (simp add: ready_def)
        with run mt show ?thesis by blast
      qed
    qed
  qed
next
  case (2 stop iov wlv elsv H S)
  from "2.prems"(7) have "\<not> i < length (contents m d)" by simp
  then have "\<forall>fuel \<ge> Suc 0. addDependencies_m fuel room stop d i io wl els st m
      = Some (Inr (io, els), m)"
    by (intro from_Suc) simp
  moreover from "2.prems"(3,5)
  have "matches m (Inr (io, els)) (addDependencies stop [] iov wlv elsv H S)"
    by (simp add: matches_def)
  ultimately show ?case using "2.prems"(1) by blast
next
  case (3 stop dep rest iov wlv elsv H S)
  note rdy = "3.prems"(1) and agree = "3.prems"(2)
    and cio = "3.prems"(3) and cwl = "3.prems"(4) and cels = "3.prems"(5)
    and st = "3.prems"(6) and dr = "3.prems"(7)
  from rdy have rio: "in_range m io" and rwl: "in_range m wl" and aels: "array els < length m"
    and n0io: "n0 \<le> array io" and n0wl: "n0 \<le> array wl" and iowl: "array io \<noteq> array wl"
    by (simp_all add: ready_def)
  from rdy have n0m: "n0 \<le> length m" by (rule ready_length)
  from dr have len: "i < length (contents m d)" by (cases "i < length (contents m d)") auto
  from dr len have nth: "contents m d ! i = dep"
    by (metis nth_via_drop)
  from dr len have dr1: "drop (i + 1) (contents m d) = rest"
    by (metis Suc_eq_plus1 drop_Suc tl_drop list.sel(3))
  show ?case
  proof (cases "IsElementInStringSlice iov dep")
    case True
    from "3.IH"(1)[OF True rdy agree cio cwl cels st dr1]
    obtain N res m' where
      run1: "\<forall>fuel \<ge> N. addDependencies_m fuel room stop d (i + 1) io wl els st m
        = Some (res, m')" and
      mat1: "matches m' res (addDependencies stop rest iov wlv elsv H S)" and
      rd1: "\<forall>io' els'. res = Inr (io', els') \<longrightarrow> ready n0 m' io' wl els'"
      by blast
    have "\<forall>fuel \<ge> Suc N. addDependencies_m fuel room stop d i io wl els st m
        = Some (res, m')"
      using True len nth cio run1 by (intro from_Suc) simp
    moreover from mat1 True
    have "matches m' res (addDependencies stop (dep # rest) iov wlv elsv H S)"
      by (simp add: addDependencies.simps(2))
    ultimately show ?thesis using rd1 by blast
  next
    case nin: False
    show ?thesis
    proof (cases "IndexInStringSlice elsv dep = - 1")
      case True
      have "\<forall>fuel \<ge> Suc 0. addDependencies_m fuel room stop d i io wl els st m
          = Some (Inl (ErrElementMissing, missingDescp dep), m)"
        using True nin len nth cio cels by (intro from_Suc) simp
      moreover from True nin
      have "matches m (Inl (ErrElementMissing, missingDescp dep))
          (addDependencies stop (dep # rest) iov wlv elsv H S)"
        by (simp add: matches_def addDependencies.simps(2))
      ultimately show ?thesis by blast
    next
      case idx: False
      from "3.IH"(2)[OF nin idx rdy agree cio cwl cels]
      obtain NA res1 m1 where
        runA: "\<forall>fuel \<ge> NA. addToInitOrder_m fuel room stop io dep wl els st m
          = Some (res1, m1)" and
        matA: "matches m1 res1 (addToInitOrder stop iov dep wlv elsv H S)" and
        rdA: "\<forall>io' els'. res1 = Inr (io', els') \<longrightarrow> ready n0 m1 io' wl els'"
        by blast
      show ?thesis
      proof (cases res1)
        case (Inl err)
        have "\<forall>fuel \<ge> Suc NA. addDependencies_m fuel room stop d i io wl els st m
            = Some (Inl err, m1)"
          using nin idx len nth cio cels runA Inl by (intro from_Suc) simp
        moreover from matA Inl nin idx
        have "matches m1 (Inl err) (addDependencies stop (dep # rest) iov wlv elsv H S)"
          by (simp add: matches_def addDependencies.simps(2))
        ultimately show ?thesis by blast
      next
        case (Inr p)
        obtain io1 els1 where p: "p = (io1, els1)" by (cases p)
        from rdA Inr p have rdy1: "ready n0 m1 io1 wl els1" by simp
        from matA Inr p have av: "addToInitOrder stop iov dep wlv elsv H S
            = Inr (contents m1 io1, contents m1 els1)"
          by (simp add: matches_def)
        from runA[rule_format, OF le_refl] have k: "kept m io wl m1"
          by (rule effects[THEN conjunct1, rule_format, THEN conjunct1])
        have agree1: "\<forall>x. contents m1 (lookup_m st x) = dependenciesOf H S x"
          using agree stable_kept[OF below_stable[OF b] k n0io n0wl n0m] by simp
        have cwl1: "contents m1 wl = wlv"
          using kept_waiting(1)[OF k rwl iowl[symmetric]] cwl by simp
        have "contents m1 d = contents m d"
          using st k n0io n0wl n0m by (rule stable_kept)
        with dr1 have dr2: "drop (i + 1) (contents m1 d) = rest" by simp
        from "3.IH"(3)[OF nin idx av refl rdy1 agree1 refl cwl1 refl st dr2]
        obtain ND res m' where
          runD: "\<forall>fuel \<ge> ND. addDependencies_m fuel room stop d (i + 1) io1 wl els1 st m1
            = Some (res, m')" and
          matD: "matches m' res (addDependencies stop rest (contents m1 io1) wlv
            (contents m1 els1) H S)" and
          rdD: "\<forall>io' els'. res = Inr (io', els') \<longrightarrow> ready n0 m' io' wl els'"
          by blast
        have "\<forall>fuel \<ge> Suc (max NA ND). addDependencies_m fuel room stop d i io wl els st m
            = Some (res, m')"
          using nin idx len nth cio cels runA runD Inr p by (intro from_Suc) simp
        moreover from matD av nin idx
        have "matches m' res (addDependencies stop (dep # rest) iov wlv elsv H S)"
          by (simp add: addDependencies.simps(2))
        ultimately show ?thesis using rdD by blast
      qed
    qed
  qed
qed

lemma InitOrder_loop_m_Suc_cases:
  assumes "InitOrder_loop_m (Suc fuel) room io wl els st m = Some (res, m')"
  obtains
    (finished) "length (contents m els) = 0" "res = Inr io" "m' = m"
  | (failed) err where "length (contents m els) \<noteq> 0"
      "addToInitOrder_m fuel room ''.'' io (contents m els ! 0) wl els st m = Some (Inl err, m')"
      "res = Inl err"
  | (added) io1 els1 m1 where "length (contents m els) \<noteq> 0"
      "addToInitOrder_m fuel room ''.'' io (contents m els ! 0) wl els st m
         = Some (Inr (io1, els1), m1)"
      "InitOrder_loop_m fuel room io1 wl els1 st m1 = Some (res, m')"
proof (cases "length (contents m els) = 0")
  case True
  with assms have "res = Inr io" "m' = m" by auto
  with True show ?thesis by (rule finished)
next
  case ne: False
  show ?thesis
  proof (cases "addToInitOrder_m fuel room ''.'' io (contents m els ! 0) wl els st m")
    case None
    with ne assms show ?thesis by simp
  next
    case (Some x)
    obtain r m1 where x: "x = (r, m1)" by (cases x)
    show ?thesis
    proof (cases r)
      case (Inl err)
      with ne assms Some x have "res = Inl err" "m1 = m'" by simp_all
      with ne Some x Inl show ?thesis by (intro failed[of err]) simp_all
    next
      case (Inr p)
      obtain io1 els1 where p: "p = (io1, els1)" by (cases p)
      with ne assms Some x Inr
      have "InitOrder_loop_m fuel room io1 wl els1 st m1 = Some (res, m')" by simp
      with ne Some x Inr p show ?thesis by (intro added[of io1 els1 m1]) simp_all
    qed
  qed
qed

lemma InitOrder_loop_m_kept:
  "InitOrder_loop_m fuel room io wl els st m = Some (res, m') \<Longrightarrow> kept m io wl m'"
proof (induction fuel arbitrary: io els m)
  case 0
  then show ?case by simp
next
  case (Suc fuel)
  from Suc.prems show ?case
  proof (cases rule: InitOrder_loop_m_Suc_cases)
    case finished
    then show ?thesis by (simp add: kept_refl)
  next
    case (failed err)
    from effects[THEN conjunct1, rule_format, OF failed(2)] show ?thesis by simp
  next
    case (added io1 els1 m1)
    note ef = effects[THEN conjunct1, rule_format, OF added(2)]
    from ef have k: "kept m io wl m1" and f: "follows m io io1" by simp_all
    from k Suc.IH[OF added(3)] show ?thesis
      by (rule kept_step) (simp_all add: f follows_refl)
  qed
qed

lemma InitOrder_loop_m_more_fuel_Suc:
  "InitOrder_loop_m fuel room io wl els st m = Some (res, m') \<Longrightarrow>
     InitOrder_loop_m (Suc fuel) room io wl els st m = Some (res, m')"
proof (induction fuel arbitrary: io els m)
  case 0
  then show ?case by simp
next
  case (Suc fuel)
  from Suc.prems show ?case
  proof (cases rule: InitOrder_loop_m_Suc_cases)
    case finished
    then show ?thesis by (simp add: InitOrder_loop_m.simps(2)[of "Suc fuel"])
  next
    case (failed err)
    from more_fuel_Suc[THEN conjunct1, rule_format, OF failed(2)] failed(1,3)
    show ?thesis
      by (simp add: InitOrder_loop_m.simps(2)[of "Suc fuel"]
          del: addToInitOrder_m.simps InitOrder_loop_m.simps)
  next
    case (added io1 els1 m1)
    from more_fuel_Suc[THEN conjunct1, rule_format, OF added(2)] Suc.IH[OF added(3)] added(1)
    show ?thesis
      by (simp add: InitOrder_loop_m.simps(2)[of "Suc fuel"]
          del: addToInitOrder_m.simps InitOrder_loop_m.simps)
  qed
qed

lemma InitOrder_loop_m_more_fuel:
  "fuel \<le> fuel' \<Longrightarrow> InitOrder_loop_m fuel room io wl els st m = Some (res, m') \<Longrightarrow>
     InitOrder_loop_m fuel' room io wl els st m = Some (res, m')"
proof (induction fuel')
  case 0
  then show ?case by simp
next
  case (Suc fuel')
  show ?case
  proof (cases "fuel = Suc fuel'")
    case True
    with Suc.prems show ?thesis by simp
  next
    case False
    with Suc have "InitOrder_loop_m fuel' room io wl els st m = Some (res, m')" by simp
    then show ?thesis by (rule InitOrder_loop_m_more_fuel_Suc)
  qed
qed

text \<open>What \<open>InitOrder\<close> returns, read in the memory that it leaves.\<close>

definition returned :: "memory \<Rightarrow> failure + slice \<Rightarrow> failure + string list" where
  "returned m r = (case r of Inl err \<Rightarrow> Inl err | Inr order \<Rightarrow> Inr (contents m order))"

lemma InitOrder_loop_simulation:
  assumes b: "below n0 st"
  shows "ready n0 m io wl els \<Longrightarrow> (\<forall>x. contents m (lookup_m st x) = dependenciesOf H S x) \<Longrightarrow>
       contents m io = iov \<Longrightarrow> contents m wl = [] \<Longrightarrow> contents m els = elsv \<Longrightarrow>
       \<exists>N res m'.
         (\<forall>fuel \<ge> N. InitOrder_loop_m fuel room io wl els st m = Some (res, m')) \<and>
         returned m' res = InitOrder_loop iov elsv H S"
proof (induction iov elsv H S arbitrary: m io els rule: InitOrder_loop.induct)
  case (1 iov elsv H S)
  note rdy = "1.prems"(1) and agree = "1.prems"(2)
    and cio = "1.prems"(3) and cwl = "1.prems"(4) and cels = "1.prems"(5)
  from rdy have rwl: "in_range m wl" and n0io: "n0 \<le> array io" and n0wl: "n0 \<le> array wl"
    and iowl: "array io \<noteq> array wl"
    by (simp_all add: ready_def)
  from rdy have n0m: "n0 \<le> length m" by (rule ready_length)
  show ?case
  proof (cases "length elsv = 0")
    case True
    then have "\<forall>fuel \<ge> Suc 0. InitOrder_loop_m fuel room io wl els st m = Some (Inr io, m)"
      using cels by (intro from_Suc) simp
    moreover from True cio have "returned m (Inr io) = InitOrder_loop iov elsv H S"
      by (simp add: returned_def InitOrder_loop.simps)
    ultimately show ?thesis by blast
  next
    case ne: False
    from simulation(1)[OF b rdy agree cio cwl cels, of room "''.''" "elsv ! 0"]
    obtain NA res1 m1 where
      runA: "\<forall>fuel \<ge> NA. addToInitOrder_m fuel room ''.'' io (elsv ! 0) wl els st m
        = Some (res1, m1)" and
      matA: "matches m1 res1 (addToInitOrder ''.'' iov (elsv ! 0) [] elsv H S)" and
      rdA: "\<forall>io' els'. res1 = Inr (io', els') \<longrightarrow> ready n0 m1 io' wl els'"
      by blast
    show ?thesis
    proof (cases res1)
      case (Inl err)
      have "\<forall>fuel \<ge> Suc NA. InitOrder_loop_m fuel room io wl els st m = Some (Inl err, m1)"
        using ne cels runA Inl by (intro from_Suc) simp
      moreover from matA Inl ne
      have "returned m1 (Inl err) = InitOrder_loop iov elsv H S"
        by (simp add: returned_def matches_def InitOrder_loop.simps[of iov elsv])
      ultimately show ?thesis by blast
    next
      case (Inr p)
      obtain io1 els1 where p: "p = (io1, els1)" by (cases p)
      from rdA Inr p have rdy1: "ready n0 m1 io1 wl els1" by simp
      from matA Inr p have av: "addToInitOrder ''.'' iov (elsv ! 0) [] elsv H S
          = Inr (contents m1 io1, contents m1 els1)"
        by (simp add: matches_def)
      from runA[rule_format, OF le_refl] have k: "kept m io wl m1"
        by (rule effects[THEN conjunct1, rule_format, THEN conjunct1])
      have agree1: "\<forall>x. contents m1 (lookup_m st x) = dependenciesOf H S x"
        using agree stable_kept[OF below_stable[OF b] k n0io n0wl n0m] by simp
      have cwl1: "contents m1 wl = []"
        using kept_waiting(1)[OF k rwl iowl[symmetric]] cwl by simp
      from "1.IH"[OF ne av refl rdy1 agree1 refl cwl1 refl]
      obtain NL res m' where
        runL: "\<forall>fuel \<ge> NL. InitOrder_loop_m fuel room io1 wl els1 st m1 = Some (res, m')" and
        retL: "returned m' res = InitOrder_loop (contents m1 io1) (contents m1 els1) H S"
        by blast
      have "\<forall>fuel \<ge> Suc (max NA NL). InitOrder_loop_m fuel room io wl els st m
          = Some (res, m')"
        using ne cels runA runL Inr p by (intro from_Suc) simp
      moreover from retL av ne have "returned m' res = InitOrder_loop iov elsv H S"
        by (simp add: InitOrder_loop.simps[of iov elsv])
      ultimately show ?thesis by blast
    qed
  qed
qed

text \<open>The arrays of the graph are arrays of the memory.\<close>

definition allocated :: "memory \<Rightarrow> System_m \<Rightarrow> bool" where
  "allocated m st \<longleftrightarrow>
     array (systemElements_m st) < length m \<and>
     (\<forall>e d. dependencies_m st e = Some d \<longrightarrow> array d < length m)"

lemma dependenciesOf_system_of:
  "dependenciesOf (heap_of m) (system_of m' st) e = contents m (lookup_m st e)"
  by (simp add: dependenciesOf_def system_of_def lookup_m_def contents_def elems_def
      split: option.splits)

lemma InitOrder_m_returns:
  assumes "allocated m st"
  shows "\<exists>N r m'. (\<forall>fuel \<ge> N. InitOrder_m fuel room st m = Some (r, m')) \<and>
    returned m' r = InitOrder (heap_of m) (system_of m st)"
proof -
  let ?io = "Slice (length m) 0 0" and ?wl = "Slice (Suc (length m)) 0 0"
  let ?m2 = "(m @ [[]]) @ [[]]"
  from assms have b: "below (length m) st" by (simp add: allocated_def below_def)
  from assms have "ready (length m) ?m2 ?io ?wl (systemElements_m st)"
    by (simp add: ready_def allocated_def in_range_def nth_append)
  moreover have "\<forall>x. contents ?m2 (lookup_m st x)
      = dependenciesOf (heap_of m) (system_of m st) x"
    using stable_alloc[OF below_stable[OF b] le_refl, of "[[], []]"]
    by (simp add: dependenciesOf_system_of)
  moreover have "contents ?m2 ?io = []" "contents ?m2 ?wl = []"
    by (simp_all add: contents_empty)
  moreover from assms have "contents ?m2 (systemElements_m st)
      = systemElements (system_of m st)"
    by (simp add: system_of_def allocated_def contents_alloc)
  ultimately obtain N res m' where
    "\<forall>fuel \<ge> N. InitOrder_loop_m fuel room ?io ?wl (systemElements_m st) st ?m2
       = Some (res, m')"
    "returned m' res = InitOrder_loop [] (systemElements (system_of m st)) (heap_of m)
       (system_of m st)"
    using InitOrder_loop_simulation[OF b, of ?m2 ?io ?wl "systemElements_m st"
        "heap_of m" "system_of m st" "[]" "systemElements (system_of m st)" room]
    by blast
  then show ?thesis
    by (auto simp: InitOrder_m_def emptySlice_def InitOrder_def)
qed

lemma InitOrder_m_result:
  assumes "allocated m st" and "InitOrder_m fuel room st m = Some (r, m')"
  shows "returned m' r = InitOrder (heap_of m) (system_of m st)"
proof -
  from InitOrder_m_returns[OF assms(1), of room] obtain N r0 m0 where
    run: "\<forall>fuel \<ge> N. InitOrder_m fuel room st m = Some (r0, m0)" and
    ret: "returned m0 r0 = InitOrder (heap_of m) (system_of m st)"
    by blast
  from assms(2) have "InitOrder_m (max fuel N) room st m = Some (r, m')"
    by (auto simp: InitOrder_m_def emptySlice_def intro: InitOrder_loop_m_more_fuel[rotated])
  with run have "r0 = r" "m0 = m'" by simp_all
  with ret show ?thesis by simp
qed

lemma InitOrder_m_frame:
  assumes "InitOrder_m fuel room st m = Some (r, m')"
  shows "take (length m) m' = m"
proof -
  let ?io = "Slice (length m) 0 0" and ?wl = "Slice (Suc (length m)) 0 0"
  let ?m2 = "(m @ [[]]) @ [[]]"
  from assms have "InitOrder_loop_m fuel room ?io ?wl (systemElements_m st) st ?m2
      = Some (r, m')"
    by (simp add: InitOrder_m_def emptySlice_def)
  then have k: "kept ?m2 ?io ?wl m'" by (rule InitOrder_loop_m_kept)
  then have l: "length m \<le> length m'" by (auto dest: kept_length)
  have "m' ! a = m ! a" if "a < length m" for a
  proof -
    from that k have "m' ! a = ?m2 ! a" by (simp add: kept_def)
    with that show ?thesis by (simp add: nth_append)
  qed
  with l show ?thesis by (intro nth_equalityI) simp_all
qed

subsection \<open>The arrays after a call of \<open>InitOrder\<close>\<close>

lemma contents_frame:
  assumes "take (length m) m' = m" and "array s < length m \<or> len s = 0"
  shows "contents m' s = contents m s"
proof (cases "len s = 0")
  case True
  then show ?thesis by (simp add: contents_empty)
next
  case False
  with assms(2) have a: "array s < length m" by simp
  from assms(1) have "m' = m @ drop (length m) m'"
    by (metis append_take_drop_id)
  then have "contents m' s = contents (m @ drop (length m) m') s" by simp
  also from a have "\<dots> = contents m s" by (rule contents_alloc)
  finally show ?thesis .
qed

lemma lookup_m_frame:
  assumes "take (length m) m' = m" and "allocated m st"
  shows "contents m' (lookup_m st e) = contents m (lookup_m st e)"
proof -
  from assms(2) have "array (lookup_m st e) < length m \<or> len (lookup_m st e) = 0"
    by (auto simp: allocated_def lookup_m_def split: option.splits)
  with assms(1) show ?thesis by (rule contents_frame)
qed

lemma allocated_frame:
  assumes "take (length m) m' = m" and "allocated m st"
  shows "allocated m' st"
proof -
  from assms(1) have "length m \<le> length m'"
    by (metis length_take min.cobounded1)
  with assms(2) show ?thesis by (fastforce simp: allocated_def)
qed

lemma system_of_frame:
  assumes "take (length m) m' = m" and "allocated m st"
  shows "system_of m' st = system_of m st"
  using assms contents_frame[of m m' "systemElements_m st"]
  by (simp add: system_of_def allocated_def)

lemma InitOrder_determined:
  assumes "systemElements t = systemElements s"
    and "\<And>e. dependenciesOf h' t e = dependenciesOf h s e"
  shows "InitOrder h' t = InitOrder h s"
  using assms InitOrder_loop_depends[of h' t h s "[]" "systemElements s"]
  by (simp add: InitOrder_def)

lemma InitOrder_m_determined:
  assumes "allocated m st" and "allocated n st'"
    and "contents n (systemElements_m st') = contents m (systemElements_m st)"
    and "\<And>e. contents n (lookup_m st' e) = contents m (lookup_m st e)"
    and "InitOrder_m fuel room st m = Some (r, m')"
    and "InitOrder_m fuel' room' st' n = Some (r', n')"
  shows "returned n' r' = returned m' r"
proof -
  have "returned m' r = InitOrder (heap_of m) (system_of m st)"
    using assms(1,5) by (rule InitOrder_m_result)
  moreover have "returned n' r' = InitOrder (heap_of n) (system_of n st')"
    using assms(2,6) by (rule InitOrder_m_result)
  moreover have "InitOrder (heap_of n) (system_of n st') = InitOrder (heap_of m) (system_of m st)"
  proof (rule InitOrder_determined)
    from assms(3) show "systemElements (system_of n st') = systemElements (system_of m st)"
      by (simp add: system_of_def)
  next
    fix e
    from assms(4) show "dependenciesOf (heap_of n) (system_of n st') e
        = dependenciesOf (heap_of m) (system_of m st) e"
      by (simp only: dependenciesOf_system_of)
  qed
  ultimately show ?thesis by simp
qed

lemma InitOrder_m_again:
  assumes "allocated m st"
    and "InitOrder_m fuel room st m = Some (r1, m1)"
    and "InitOrder_m fuel' room' st m1 = Some (r2, m2)"
  shows "returned m2 r2 = returned m1 r1"
proof -
  from assms(2) have f: "take (length m) m1 = m" by (rule InitOrder_m_frame)
  from f assms(1) have a1: "allocated m1 st" by (rule allocated_frame)
  from assms(1) have "array (systemElements_m st) < length m \<or> len (systemElements_m st) = 0"
    by (simp add: allocated_def)
  with f have "contents m1 (systemElements_m st) = contents m (systemElements_m st)"
    by (rule contents_frame)
  moreover have "contents m1 (lookup_m st e) = contents m (lookup_m st e)" for e
    using f assms(1) by (rule lookup_m_frame)
  ultimately show ?thesis
    using assms(1) a1 assms(2,3) by (intro InitOrder_m_determined[of m st m1 st]) simp_all
qed

text \<open>
  The value that \<open>perform\<close> gives for a call of \<open>InitOrder\<close>, and the heap and the system
  that it gives back unchanged, are those of the run on the memory.
\<close>

lemma perform_InitOrder_m:
  assumes "allocated m st" and "InitOrder_m fuel room st m = Some (r, m')"
  shows "perform CallInitOrder (heap_of m, system_of m st)
      = (InitOrderReturned (returned m' r), (heap_of m, system_of m' st))"
    and "\<forall>a < length m. heap_of m' a = heap_of m a"
proof -
  from assms(2) have f: "take (length m) m' = m" by (rule InitOrder_m_frame)
  from InitOrder_m_result[OF assms] system_of_frame[OF f assms(1)]
  show "perform CallInitOrder (heap_of m, system_of m st)
      = (InitOrderReturned (returned m' r), (heap_of m, system_of m' st))"
    by simp
  from f have l: "length m \<le> length m'" by (metis length_take min.cobounded1)
  show "\<forall>a < length m. heap_of m' a = heap_of m a"
  proof (intro allI impI)
    fix a assume a: "a < length m"
    from f have "take (length m) m' ! a = m ! a" by simp
    with a have "m' ! a = m ! a" by simp
    with a l show "heap_of m' a = heap_of m a" by (simp add: heap_of_def)
  qed
qed

subsection \<open>A graph of two elements in memory\<close>

text \<open>
  The memory and the structure after \<^verbatim>\<open>AddElement ("A", deps)\<close> with \<^verbatim>\<open>deps\<close> the slice
  \<^verbatim>\<open>["B"]\<close>, and \<^verbatim>\<open>AddElement ("B", nil)\<close>: array 0 holds the elements, array 1 is the array of
  \<^verbatim>\<open>deps\<close>, which the caller still holds.
\<close>

definition pair_memory :: memory where
  "pair_memory = [[''A'', ''B''], [''B'']]"

definition pair_system :: System_m where
  "pair_system =
     \<lparr>systemElements_m = Slice 0 0 2,
      dependencies_m = [''A'' \<mapsto> Slice 1 0 1, ''B'' \<mapsto> Slice 0 0 0],
      addedElements_m = ''A/B/''\<rparr>"

text \<open>The runtime that gives a new array no spare place.\<close>

definition exact :: "nat \<Rightarrow> nat \<Rightarrow> nat" where
  "exact cap n = 0"

text \<open>The statement \<^verbatim>\<open>s[i] = v\<close> on the memory; out of range it panics (\<open>None\<close>).\<close>

definition store_m :: "slice \<Rightarrow> nat \<Rightarrow> string \<Rightarrow> memory \<Rightarrow> memory option" where
  "store_m s i v m =
     (if array s < length m \<and> i < len s \<and> low s + i < length (m ! array s)
      then Some (m[array s := (m ! array s)[low s + i := v]])
      else None)"

lemma allocated_pair: "allocated pair_memory pair_system"
  by (simp add: allocated_def pair_memory_def pair_system_def)

definition pair_memory_after :: memory where
  "pair_memory_after =
     [[''A'', ''B''], [''B''], [], [], [''A''], [''A''], [''B''], [], [], [''B'', ''A'']]"

lemma InitOrder_m_pair:
  "InitOrder_m 4 exact pair_system pair_memory = Some (Inr (Slice 9 0 2), pair_memory_after)"
  by code_simp

text \<open>
  C4. A call of \<open>InitOrder\<close> on a graph whose arrays are in the memory returns, and whether
  it succeeds or fails it leaves every array that was in the memory as it was: the
  sequence of elements of the graph and the sequence of dependencies stored for each
  identifier are the same after the call. (\<open>elements\<close> shares the array of
  \<open>systemElements\<close> from line 255 on; the call reads it, and writes only into arrays that it
  has allocated itself.)
\<close>

theorem InitOrder_read_only:
  assumes "allocated m someSystem"
  shows "(\<exists>N. \<forall>fuel \<ge> N. InitOrder_m fuel room someSystem m \<noteq> None) \<and>
    (\<forall>fuel r m'. InitOrder_m fuel room someSystem m = Some (r, m') \<longrightarrow>
       take (length m) m' = m \<and>
       contents m' (systemElements_m someSystem) = contents m (systemElements_m someSystem) \<and>
       (\<forall>element d. dependencies_m someSystem element = Some d \<longrightarrow>
          contents m' d = contents m d) \<and>
       system_of m' someSystem = system_of m someSystem \<and>
       (\<forall>element. dependenciesOf (heap_of m') (system_of m' someSystem) element
          = dependenciesOf (heap_of m) (system_of m someSystem) element))"
proof (rule conjI)
  from InitOrder_m_returns[OF assms, of room]
  show "\<exists>N. \<forall>fuel \<ge> N. InitOrder_m fuel room someSystem m \<noteq> None"
    by fastforce
next
  show "\<forall>fuel r m'. InitOrder_m fuel room someSystem m = Some (r, m') \<longrightarrow>
       take (length m) m' = m \<and>
       contents m' (systemElements_m someSystem) = contents m (systemElements_m someSystem) \<and>
       (\<forall>element d. dependencies_m someSystem element = Some d \<longrightarrow>
          contents m' d = contents m d) \<and>
       system_of m' someSystem = system_of m someSystem \<and>
       (\<forall>element. dependenciesOf (heap_of m') (system_of m' someSystem) element
          = dependenciesOf (heap_of m) (system_of m someSystem) element)"
  proof (intro allI impI)
    fix fuel r m'
    assume "InitOrder_m fuel room someSystem m = Some (r, m')"
    then have f: "take (length m) m' = m" by (rule InitOrder_m_frame)
    from assms have "array (systemElements_m someSystem) < length m
        \<or> len (systemElements_m someSystem) = 0"
      by (simp add: allocated_def)
    with f have e: "contents m' (systemElements_m someSystem)
        = contents m (systemElements_m someSystem)"
      by (rule contents_frame)
    have d: "contents m' d = contents m d" if "dependencies_m someSystem element = Some d"
      for element d
    proof -
      from that assms have "array d < length m \<or> len d = 0" by (auto simp: allocated_def)
      with f show ?thesis by (rule contents_frame)
    qed
    have s: "system_of m' someSystem = system_of m someSystem"
      using f assms by (rule system_of_frame)
    have "dependenciesOf (heap_of m') (system_of m' someSystem) element
        = dependenciesOf (heap_of m) (system_of m someSystem) element" for element
      using lookup_m_frame[OF f assms, of element] by (simp only: dependenciesOf_system_of)
    with f e d s show "take (length m) m' = m \<and>
       contents m' (systemElements_m someSystem) = contents m (systemElements_m someSystem) \<and>
       (\<forall>element d. dependencies_m someSystem element = Some d \<longrightarrow>
          contents m' d = contents m d) \<and>
       system_of m' someSystem = system_of m someSystem \<and>
       (\<forall>element. dependenciesOf (heap_of m') (system_of m' someSystem) element
          = dependenciesOf (heap_of m) (system_of m someSystem) element)"
      by blast
  qed
qed

theorem InitOrder_read_only_witness:
  "allocated pair_memory pair_system \<and>
   InitOrder_m 4 exact pair_system pair_memory = Some (Inr (Slice 9 0 2), pair_memory_after) \<and>
   take (length pair_memory) pair_memory_after = pair_memory \<and>
   contents pair_memory_after (systemElements_m pair_system) = [''A'', ''B''] \<and>
   contents pair_memory_after (Slice 1 0 1) = [''B''] \<and>
   system_of pair_memory_after pair_system = system_of pair_memory pair_system"
proof -
  have c: "contents pair_memory (systemElements_m pair_system) = [''A'', ''B'']"
    "contents pair_memory (Slice 1 0 1) = [''B'']"
    "dependencies_m pair_system ''A'' = Some (Slice 1 0 1)"
    by (simp_all add: pair_memory_def pair_system_def contents_def elems_def heap_of_def)
  from InitOrder_read_only[OF allocated_pair, of exact, THEN conjunct2, rule_format,
      OF InitOrder_m_pair]
  show ?thesis using allocated_pair InitOrder_m_pair c by (simp del: take_eq_Nil)
qed

subsection \<open>One call of \<open>InitOrder\<close> after another\<close>

text \<open>
  C8, as stated, fails. Between two calls of \<open>InitOrder\<close>, without any call of
  \<open>AddElement\<close>, the caller can assign to an element of the slice that it gave to
  \<open>AddElement\<close> and that line 228 stored: with \<^verbatim>\<open>A\<close> depending on \<^verbatim>\<open>deps = ["B"]\<close>, the first
  call returns the order \<^verbatim>\<open>B, A\<close>; after \<^verbatim>\<open>deps[0] = "A"\<close> the second call returns
  \<open>ErrCircleDetected\<close>.
\<close>

theorem caller_store_changes_InitOrder:
  "(case InitOrder_m 4 exact pair_system pair_memory of
      None \<Rightarrow> False
    | Some (r1, m1) \<Rightarrow>
        returned m1 r1 = Inr [''B'', ''A''] \<and>
        (case store_m (Slice 1 0 1) 0 ''A'' m1 of
           None \<Rightarrow> False
         | Some m1' \<Rightarrow>
             (case InitOrder_m 4 exact pair_system m1' of
                None \<Rightarrow> False
              | Some (r2, m2) \<Rightarrow>
                  returned m2 r2
                    = Inl (ErrCircleDetected,
                        ''Element '' @ [CHR 0x27] @ ''A'' @ [CHR 0x27]
                          @ '' is part of the circle.''))))"
  by code_simp

text \<open>
  C8, as amended. Two calls of \<open>InitOrder\<close>, the second beginning in the memory that the
  first has left (no call of \<open>AddElement\<close> and no assignment of the caller in between),
  both return, and they return the same result: the same order, or the same error with
  the same description. The result is determined by the sequence of elements and by
  what, at the time of the call, the sequence of dependencies of each identifier holds:
  two graphs that agree on these get the same result, wherever their arrays lie and
  whatever spare room the runtime gives to new arrays.
\<close>

theorem InitOrder_deterministic:
  assumes "allocated m someSystem"
  shows "(\<exists>N r1 m1 r2 m2.
       (\<forall>fuel \<ge> N. InitOrder_m fuel room someSystem m = Some (r1, m1)) \<and>
       (\<forall>fuel \<ge> N. InitOrder_m fuel room' someSystem m1 = Some (r2, m2)) \<and>
       returned m2 r2 = returned m1 r1) \<and>
    (\<forall>fuel fuel' r1 m1 r2 m2.
       InitOrder_m fuel room someSystem m = Some (r1, m1) \<longrightarrow>
       InitOrder_m fuel' room' someSystem m1 = Some (r2, m2) \<longrightarrow>
       returned m2 r2 = returned m1 r1) \<and>
    (\<forall>n otherSystem fuel fuel' r m' r' n'.
       allocated n otherSystem \<longrightarrow>
       contents n (systemElements_m otherSystem) = contents m (systemElements_m someSystem) \<longrightarrow>
       (\<forall>element. contents n (lookup_m otherSystem element)
          = contents m (lookup_m someSystem element)) \<longrightarrow>
       InitOrder_m fuel room someSystem m = Some (r, m') \<longrightarrow>
       InitOrder_m fuel' room' otherSystem n = Some (r', n') \<longrightarrow>
       returned n' r' = returned m' r)"
proof (intro conjI)
  from InitOrder_m_returns[OF assms, of room] obtain N1 r1 m1 where
    run1: "\<forall>fuel \<ge> N1. InitOrder_m fuel room someSystem m = Some (r1, m1)"
    by blast
  then have one: "InitOrder_m N1 room someSystem m = Some (r1, m1)" by simp
  then have "take (length m) m1 = m" by (rule InitOrder_m_frame)
  then have "allocated m1 someSystem" using assms by (rule allocated_frame)
  from InitOrder_m_returns[OF this, of room'] obtain N2 r2 m2 where
    run2: "\<forall>fuel \<ge> N2. InitOrder_m fuel room' someSystem m1 = Some (r2, m2)"
    by blast
  then have two: "InitOrder_m N2 room' someSystem m1 = Some (r2, m2)" by simp
  from assms one two have "returned m2 r2 = returned m1 r1" by (rule InitOrder_m_again)
  moreover from run1 have "\<forall>fuel \<ge> max N1 N2. InitOrder_m fuel room someSystem m
      = Some (r1, m1)"
    by simp
  moreover from run2 have "\<forall>fuel \<ge> max N1 N2. InitOrder_m fuel room' someSystem m1
      = Some (r2, m2)"
    by simp
  ultimately show "\<exists>N r1 m1 r2 m2.
       (\<forall>fuel \<ge> N. InitOrder_m fuel room someSystem m = Some (r1, m1)) \<and>
       (\<forall>fuel \<ge> N. InitOrder_m fuel room' someSystem m1 = Some (r2, m2)) \<and>
       returned m2 r2 = returned m1 r1"
    by blast
next
  show "\<forall>fuel fuel' r1 m1 r2 m2.
       InitOrder_m fuel room someSystem m = Some (r1, m1) \<longrightarrow>
       InitOrder_m fuel' room' someSystem m1 = Some (r2, m2) \<longrightarrow>
       returned m2 r2 = returned m1 r1"
    using InitOrder_m_again[OF assms] by blast
next
  show "\<forall>n otherSystem fuel fuel' r m' r' n'.
       allocated n otherSystem \<longrightarrow>
       contents n (systemElements_m otherSystem) = contents m (systemElements_m someSystem) \<longrightarrow>
       (\<forall>element. contents n (lookup_m otherSystem element)
          = contents m (lookup_m someSystem element)) \<longrightarrow>
       InitOrder_m fuel room someSystem m = Some (r, m') \<longrightarrow>
       InitOrder_m fuel' room' otherSystem n = Some (r', n') \<longrightarrow>
       returned n' r' = returned m' r"
    using InitOrder_m_determined[OF assms] by blast
qed

theorem InitOrder_deterministic_witness:
  "allocated pair_memory pair_system \<and>
   InitOrder_m 4 exact pair_system pair_memory = Some (Inr (Slice 9 0 2), pair_memory_after) \<and>
   returned pair_memory_after (Inr (Slice 9 0 2)) = Inr [''B'', ''A''] \<and>
   (\<exists>r2 m2. InitOrder_m 4 exact pair_system pair_memory_after = Some (r2, m2) \<and>
      returned m2 r2 = Inr [''B'', ''A''])"
proof -
  have "InitOrder_m 4 exact pair_system pair_memory_after \<noteq> None" by code_simp
  then obtain r2 m2 where
    two: "InitOrder_m 4 exact pair_system pair_memory_after = Some (r2, m2)"
    by auto
  have ret: "returned pair_memory_after (Inr (Slice 9 0 2)) = Inr [''B'', ''A'']"
    by code_simp
  from InitOrder_deterministic[OF allocated_pair, of exact exact, THEN conjunct2,
      THEN conjunct1, rule_format, OF InitOrder_m_pair two]
  have "returned m2 r2 = returned pair_memory_after (Inr (Slice 9 0 2))" .
  with ret two allocated_pair InitOrder_m_pair show ?thesis by simp
qed

end
